theory Spec2Isabelle
  imports Main "HOL-Library.Sublist"
begin

unbundle bit_operations_syntax

section \<open>The verification harness (garuda/dv/test\_mac.py)\<close>

subsection \<open>Opcodes, errors, and the simulator interface\<close>

text \<open>Opcode constants, as the module declares them.\<close>

definition OP_ILLEGAL :: int where "OP_ILLEGAL = 0"
definition OP_MAC8 :: int where "OP_MAC8 = 1"
definition OP_MAC8_ACC :: int where "OP_MAC8_ACC = 2"
definition OP_MUL8 :: int where "OP_MUL8 = 3"
definition OP_CLIP8 :: int where "OP_CLIP8 = 4"
definition OP_SIMD_DOT :: int where "OP_SIMD_DOT = 5"

text \<open>
  The exceptions the module can raise: an \<open>assert\<close> that fails carries its message,
  a list index out of range raises \<open>IndexError\<close>.
\<close>

datatype error = IndexError | AssertionError string

text \<open>
  The input ports the harness assigns to, and the output ports it reads. The clock
  \<open>clk_i\<close> is not assigned by the harness: it is handed to the clock generator and
  then only awaited.
\<close>

datatype port = rst_ni | rs1_i | rs2_i | rd_i | opcode_i | hartid_i | id_i | rd_addr_i

datatype oport = result_o | valid_o

text \<open>
  Every interaction of a test with the simulator is an event; the state of a test is
  the chronological list of the events so far. \<open>Write p v\<close> is \<open>dut.p.value = v\<close>
  with the Python integer \<open>v\<close> as written, \<open>Timer n\<close> is \<open>await Timer(n, units="ns")\<close>,
  \<open>RisingEdge\<close> is \<open>await RisingEdge(dut.clk_i)\<close>, \<open>StartClock n\<close> starts the
  clock generator with a period of \<open>n\<close> ns, \<open>Sample p\<close> is a read of an output port
  and \<open>LogInfo s\<close> is \<open>dut._log.info(s)\<close>.
\<close>

datatype event =
    Write port int
  | Timer nat
  | RisingEdge
  | StartClock nat
  | Sample oport
  | LogInfo string

type_synonym trace = "event list"

text \<open>
  The design under test is a black box: what an output port shows is a function of
  everything that happened to the design so far. For \<open>result_o\<close> the value is the
  port's \<open>signed_integer\<close>, for \<open>valid_o\<close> the integer the port's value compares as.
\<close>

type_synonym dut = "trace \<Rightarrow> oport \<Rightarrow> int"

definition drive :: "port \<Rightarrow> int \<Rightarrow> trace \<Rightarrow> trace" where
  "drive p v tr = tr @ [Write p v]"

definition await_timer :: "nat \<Rightarrow> trace \<Rightarrow> trace" where
  "await_timer n tr = tr @ [Timer n]"

definition await_rising_edge :: "trace \<Rightarrow> trace" where
  "await_rising_edge tr = tr @ [RisingEdge]"

definition start_clock :: "nat \<Rightarrow> trace \<Rightarrow> trace" where
  "start_clock period tr = tr @ [StartClock period]"

definition sample :: "dut \<Rightarrow> oport \<Rightarrow> trace \<Rightarrow> int \<times> trace" where
  "sample d p tr = (d tr p, tr @ [Sample p])"

definition log_info :: "string \<Rightarrow> trace \<Rightarrow> trace" where
  "log_info s tr = tr @ [LogInfo s]"

subsection \<open>Randomness\<close>

text \<open>
  The state of Python's random generator is the sequence of raw draws still to come.
  \<open>random.randint(a, b)\<close> consumes one draw and returns an integer \<open>N\<close> with
  \<open>a \<le> N \<le> b\<close> (the contract of the standard library). The harness calls it
  with constant bounds \<open>a \<le> b\<close> only; the \<open>ValueError\<close> of an empty range is
  not modelled.
\<close>

type_synonym rng = "nat \<Rightarrow> nat"

definition randint :: "int \<Rightarrow> int \<Rightarrow> rng \<Rightarrow> int \<times> rng" where
  "randint a b g = (a + int (g 0 mod nat (b - a + 1)), \<lambda>n. g (Suc n))"

text \<open>The comprehension \<open>[random.randint(a, b) for _ in range(n)]\<close>.\<close>

fun randint_list :: "nat \<Rightarrow> int \<Rightarrow> int \<Rightarrow> rng \<Rightarrow> int list \<times> rng" where
  "randint_list 0 a b g = ([], g)"
| "randint_list (Suc n) a b g =
     (let (x, g1) = randint a b g;
          (xs, g2) = randint_list n a b g1
      in (x # xs, g2))"

subsection \<open>reset\_dut\<close>

definition reset_dut :: "trace \<Rightarrow> trace" where
  "reset_dut tr0 =
     (let tr = drive rst_ni 0 tr0;
          tr = drive rs1_i 0 tr;
          tr = drive rs2_i 0 tr;
          tr = drive rd_i 0 tr;
          tr = drive opcode_i 0 tr;
          tr = drive hartid_i 0 tr;
          tr = drive id_i 0 tr;
          tr = drive rd_addr_i 0 tr;
          tr = await_timer 20 tr;
          tr = drive rst_ni 1 tr
      in await_rising_edge tr)"

subsection \<open>get\_signed\_bytes\<close>

text \<open>
  Python's \<open>>>\<close> on an integer is the arithmetic shift (\<open>drop_bit\<close> on \<open>int\<close>) and
  \<open>&\<close> works on the two's complement representation, as \<open>AND\<close> on \<open>int\<close> does.
\<close>

definition signed_byte :: "int \<Rightarrow> nat \<Rightarrow> int" where
  "signed_byte val i =
     (let byte = (drop_bit (i * 8) val) AND 255
      in if byte \<ge> 128 then byte - 256 else byte)"

definition get_signed_bytes :: "int \<Rightarrow> int list" where
  "get_signed_bytes val =
     fold (\<lambda>i bytes_list. bytes_list @ [signed_byte val i]) [0..<4] []"

subsection \<open>test\_simd\_dot\<close>

text \<open>
  The packing loop over \<open>range(4)\<close>; indexing a list that is too short raises
  \<open>IndexError\<close>.
\<close>

fun pack_loop :: "int list \<Rightarrow> int list \<Rightarrow> nat list \<Rightarrow> int \<times> int \<Rightarrow> error + int \<times> int" where
  "pack_loop rs1_bytes rs2_bytes [] (rs1_val, rs2_val) = Inr (rs1_val, rs2_val)"
| "pack_loop rs1_bytes rs2_bytes (b_idx # rest) (rs1_val, rs2_val) =
     (if b_idx < length rs1_bytes \<and> b_idx < length rs2_bytes then
        pack_loop rs1_bytes rs2_bytes rest
          (rs1_val OR push_bit (b_idx * 8) ((rs1_bytes ! b_idx) AND 255),
           rs2_val OR push_bit (b_idx * 8) ((rs2_bytes ! b_idx) AND 255))
      else Inl IndexError)"

definition pack_operands :: "int list \<Rightarrow> int list \<Rightarrow> error + int \<times> int" where
  "pack_operands rs1_bytes rs2_bytes = pack_loop rs1_bytes rs2_bytes [0..<4] (0, 0)"

text \<open>The golden model: the dot product loop, the accumulator, the 32-bit correction.\<close>

fun dot_loop :: "int list \<Rightarrow> int list \<Rightarrow> nat list \<Rightarrow> int \<Rightarrow> error + int" where
  "dot_loop rs1_bytes rs2_bytes [] dot_product = Inr dot_product"
| "dot_loop rs1_bytes rs2_bytes (b # rest) dot_product =
     (if b < length rs1_bytes \<and> b < length rs2_bytes then
        dot_loop rs1_bytes rs2_bytes rest (dot_product + rs1_bytes ! b * rs2_bytes ! b)
      else Inl IndexError)"

definition simd_expected :: "int list \<Rightarrow> int list \<Rightarrow> int \<Rightarrow> error + int" where
  "simd_expected rs1_bytes rs2_bytes acc_val =
     (case dot_loop rs1_bytes rs2_bytes [0..<4] 0 of
        Inl e \<Rightarrow> Inl e
      | Inr dot_product \<Rightarrow>
          (let expected = dot_product + acc_val
           in Inr (if expected > 2147483647 then expected - 4294967296
                   else if expected < - 2147483648 then expected + 4294967296
                   else expected)))"

text \<open>What \<open>str\<close> gives for an integer and for a list of integers, as f-strings use it.\<close>

function str_nat :: "nat \<Rightarrow> string" where
  "str_nat n =
     (if n < 10 then [''0123456789'' ! n]
      else str_nat (n div 10) @ [''0123456789'' ! (n mod 10)])"
  by pat_completeness auto
termination
  by (relation "measure id") auto

definition str_int :: "int \<Rightarrow> string" where
  "str_int i = (if i < 0 then CHR ''-'' # str_nat (nat (- i)) else str_nat (nat i))"

fun join_comma :: "string list \<Rightarrow> string" where
  "join_comma [] = []"
| "join_comma [s] = s"
| "join_comma (s # t # ss) = s @ '', '' @ join_comma (t # ss)"

definition str_list :: "int list \<Rightarrow> string" where
  "str_list xs = ''['' @ join_comma (map str_int xs) @ '']''"

definition valid_msg :: string where
  "valid_msg = ''Output should be valid for SIMD_DOT''"

definition mismatch_msg :: "nat \<Rightarrow> int list \<Rightarrow> int list \<Rightarrow> int \<Rightarrow> int \<Rightarrow> int \<Rightarrow> string" where
  "mismatch_msg i rs1_bytes rs2_bytes acc_val expected got =
     ''Iter '' @ str_int (int i) @ '': Mismatch! rs1='' @ str_list rs1_bytes
       @ '', rs2='' @ str_list rs2_bytes @ '', acc='' @ str_int acc_val @ [CHR 0x0A]
       @ ''Expected: '' @ str_int expected @ '', Got: '' @ str_int got"

text \<open>The three draws at the head of the loop body.\<close>

definition gen_inputs :: "rng \<Rightarrow> (int list \<times> int list \<times> int) \<times> rng" where
  "gen_inputs g =
     (let (rs1_bytes, g) = randint_list 4 (- 128) 127 g;
          (rs2_bytes, g) = randint_list 4 (- 128) 127 g;
          (acc_val, g) = randint (- 2147483648) 2147483647 g
      in ((rs1_bytes, rs2_bytes, acc_val), g))"

text \<open>The two assertions at the end of the loop body, in their order.\<close>

definition simd_check ::
  "nat \<Rightarrow> int list \<Rightarrow> int list \<Rightarrow> int \<Rightarrow> int \<Rightarrow> int \<Rightarrow> int \<Rightarrow> error + unit" where
  "simd_check i rs1_bytes rs2_bytes acc_val expected got valid =
     (if valid \<noteq> 1 then Inl (AssertionError valid_msg)
      else if got \<noteq> expected then
        Inl (AssertionError (mismatch_msg i rs1_bytes rs2_bytes acc_val expected got))
      else Inr ())"

text \<open>
  One iteration of the loop. The result is the trace after the iteration together with
  either the exception raised or the state of the random generator.
\<close>

definition simd_iteration :: "dut \<Rightarrow> nat \<Rightarrow> rng \<Rightarrow> trace \<Rightarrow> trace \<times> (error + rng)" where
  "simd_iteration d i g tr0 =
     (let ((rs1_bytes, rs2_bytes, acc_val), g) = gen_inputs g
      in case pack_operands rs1_bytes rs2_bytes of
           Inl e \<Rightarrow> (tr0, Inl e)
         | Inr (rs1_val, rs2_val) \<Rightarrow>
             (let tr = drive rs1_i rs1_val tr0;
                  tr = drive rs2_i rs2_val tr;
                  tr = drive rd_i acc_val tr;
                  tr = drive opcode_i OP_SIMD_DOT tr;
                  tr = await_rising_edge tr;
                  tr = await_rising_edge tr
              in case simd_expected rs1_bytes rs2_bytes acc_val of
                   Inl e \<Rightarrow> (tr, Inl e)
                 | Inr expected \<Rightarrow>
                     (let (got, tr) = sample d result_o tr;
                          (valid, tr) = sample d valid_o tr
                      in case simd_check i rs1_bytes rs2_bytes acc_val expected got valid of
                           Inl e \<Rightarrow> (tr, Inl e)
                         | Inr u \<Rightarrow> (tr, Inr g))))"

text \<open>The loop \<open>for i in range(1000)\<close>: an exception ends it.\<close>

fun simd_loop :: "dut \<Rightarrow> nat list \<Rightarrow> rng \<Rightarrow> trace \<Rightarrow> trace \<times> (error + rng)" where
  "simd_loop d [] g tr = (tr, Inr g)"
| "simd_loop d (i # rest) g tr =
     (case simd_iteration d i g tr of
        (tr', Inl e) \<Rightarrow> (tr', Inl e)
      | (tr', Inr g') \<Rightarrow> simd_loop d rest g' tr')"

definition test_simd_dot :: "dut \<Rightarrow> rng \<Rightarrow> trace \<Rightarrow> trace \<times> (error + unit)" where
  "test_simd_dot d g tr0 =
     (let tr = start_clock 10 tr0;
          tr = reset_dut tr
      in case simd_loop d [0..<1000] g tr of
           (tr', Inl e) \<Rightarrow> (tr', Inl e)
         | (tr', Inr g') \<Rightarrow>
             (log_info ''SIMD_DOT verification passed (1000 vectors)'' tr', Inr ()))"

subsection \<open>test\_mac8\_legacy\<close>

text \<open>The expected value of the MAC8 test, as a function of the three bytes.\<close>

definition mac8_expected :: "int \<Rightarrow> int \<Rightarrow> int \<Rightarrow> int" where
  "mac8_expected rs1_byte rs2_byte acc_byte = (rs1_byte * rs2_byte) + acc_byte"

definition mac8_msg :: "int \<Rightarrow> int \<Rightarrow> string" where
  "mac8_msg expected got =
     ''MAC8 failed. Expected '' @ str_int expected @ '', got '' @ str_int got"

definition test_mac8_legacy :: "dut \<Rightarrow> trace \<Rightarrow> trace \<times> (error + unit)" where
  "test_mac8_legacy d tr0 =
     (let tr = start_clock 10 tr0;
          tr = reset_dut tr;
          rs1_byte = 10;
          rs2_byte = - 5;
          acc_byte = 20;
          tr = drive rs1_i (rs1_byte AND 255) tr;
          tr = drive rs2_i (rs2_byte AND 255) tr;
          tr = drive rd_i (acc_byte AND 255) tr;
          tr = drive opcode_i OP_MAC8 tr;
          tr = await_rising_edge tr;
          tr = await_rising_edge tr;
          expected = mac8_expected rs1_byte rs2_byte acc_byte;
          (got, tr) = sample d result_o tr
      in if got \<noteq> expected then (tr, Inl (AssertionError (mac8_msg expected got)))
         else (tr, Inr ()))"

subsection \<open>Event sequences\<close>

text \<open>The events of the reset sequence, and of driving the MAC8 vector, in their order.\<close>

definition reset_events :: "event list" where
  "reset_events =
     [Write rst_ni 0, Write rs1_i 0, Write rs2_i 0, Write rd_i 0, Write opcode_i 0,
      Write hartid_i 0, Write id_i 0, Write rd_addr_i 0, Timer 20, Write rst_ni 1, RisingEdge]"

definition mac8_events :: "event list" where
  "mac8_events =
     [Write rs1_i 10, Write rs2_i 251, Write rd_i 20, Write opcode_i 1, RisingEdge, RisingEdge]"

text \<open>The events of one SIMD\_DOT vector, from driving it to sampling the outputs.\<close>

definition simd_vector_events :: "int \<Rightarrow> int \<Rightarrow> int \<Rightarrow> event list" where
  "simd_vector_events rs1_val rs2_val acc_val =
     [Write rs1_i rs1_val, Write rs2_i rs2_val, Write rd_i acc_val, Write opcode_i 5,
      RisingEdge, RisingEdge, Sample result_o, Sample valid_o]"

text \<open>
  The vectors that the first \<open>n\<close> iterations of the loop drive, as they follow from
  the state of the random generator: the packed operands and the accumulator of each.
\<close>

fun stimulus :: "nat \<Rightarrow> rng \<Rightarrow> (int \<times> int \<times> int) list" where
  "stimulus 0 g = []"
| "stimulus (Suc n) g =
     (case gen_inputs g of
        ((rs1_bytes, rs2_bytes, acc_val), g') \<Rightarrow>
          (case pack_operands rs1_bytes rs2_bytes of
             Inl e \<Rightarrow> []
           | Inr (rs1_val, rs2_val) \<Rightarrow> (rs1_val, rs2_val, acc_val) # stimulus n g'))"

section \<open>The file list extractor (integration/extract\_cva6\_files.py)\<close>

text \<open>
  Strings are ASCII text. \<open>str.strip()\<close> removes the whitespace characters at both
  ends; \<open>str.replace(old, new)\<close> replaces the occurrences of \<open>old\<close> from left to
  right without overlap (an empty \<open>old\<close> matches before every character and at the
  end); \<open>str.split(sep)\<close> cuts at every occurrence of the one-character separator.
\<close>

definition is_space :: "char \<Rightarrow> bool" where
  "is_space c = (c \<in> set [CHR '' '', CHR 0x09, CHR 0x0A, CHR 0x0B, CHR 0x0C, CHR 0x0D,
                            CHR 0x1C, CHR 0x1D, CHR 0x1E, CHR 0x1F])"

definition strip :: "string \<Rightarrow> string" where
  "strip s = rev (dropWhile is_space (rev (dropWhile is_space s)))"

function replace :: "string \<Rightarrow> string \<Rightarrow> string \<Rightarrow> string" where
  "replace old new [] = (if old = [] then new else [])"
| "replace old new (c # cs) =
     (if old = [] then new @ concat (map (\<lambda>x. x # new) (c # cs))
      else if prefix old (c # cs) then new @ replace old new (drop (length old) (c # cs))
      else c # replace old new cs)"
  by pat_completeness auto
termination
  by (relation "measure (\<lambda>(old, new, s). length s)") auto

fun split :: "char \<Rightarrow> string \<Rightarrow> string list" where
  "split sep [] = [[]]"
| "split sep (c # cs) =
     (if c = sep then [] # split sep cs
      else (case split sep cs of
              [] \<Rightarrow> [[c]]
            | l # ls \<Rightarrow> (c # l) # ls))"

text \<open>
  \<open>re.match(r'.*\.(sv|svh|v)$', line)\<close> on a line without a newline: the line ends
  in \<open>.sv\<close>, \<open>.svh\<close> or \<open>.v\<close>.
\<close>

definition match_rtl_file :: "string \<Rightarrow> bool" where
  "match_rtl_file line = (suffix ''.sv'' line \<or> suffix ''.svh'' line \<or> suffix ''.v'' line)"

text \<open>
  The operating system, as the function sees it: the path functions of \<open>os.path\<close>
  (they depend on the platform and on the working directory) and the file system, a
  finite table from paths to what is there.
\<close>

datatype node = RegularFile string | Directory

record os_env =
  normpath :: "string \<Rightarrow> string"
  abspath :: "string \<Rightarrow> string"
  join_path :: "string \<Rightarrow> string \<Rightarrow> string"
  isabs :: "string \<Rightarrow> bool"
  fs :: "(string \<times> node) list"

datatype os_error = IsADirectoryError string

text \<open>
  What a call does to the world: it opens files and prints warnings to stderr. The
  state of a run is the set \<open>processed_flists\<close> and the log of these events.
\<close>

datatype io_event = Open string | Warn string

record flist_state =
  processed_flists :: "string set"
  io_log :: "io_event list"

text \<open>
  A call returns, raises, or has used up the recursion depth it was given.
\<close>

datatype 'a outcome = OutOfFuel | Raised os_error | Returned 'a

type_synonym flist_result = "string list \<times> string list"

text \<open>
  The loop over the lines of a file list. \<open>recurse\<close> is the recursive call of
  process\_flist\_file with \<open>cva6_repo_dir\<close>, \<open>target_cfg\<close> and the shared set.
\<close>

fun process_lines ::
  "os_env \<Rightarrow> string \<Rightarrow> (string \<Rightarrow> flist_state \<Rightarrow> (flist_result \<times> flist_state) outcome)
     \<Rightarrow> string list \<Rightarrow> flist_result \<Rightarrow> flist_state \<Rightarrow> (flist_result \<times> flist_state) outcome" where
  "process_lines env cva6_repo_dir recurse [] (files, include_dirs) st =
     Returned ((files, include_dirs), st)"
| "process_lines env cva6_repo_dir recurse (raw # rest) (files, include_dirs) st =
     (let line = strip raw in
      if line = [] \<or> prefix ''//'' line then
        process_lines env cva6_repo_dir recurse rest (files, include_dirs) st
      else if prefix ''+incdir'' line then
        (let incdir = strip (replace ''+incdir+'' [] line)
         in process_lines env cva6_repo_dir recurse rest
              (files, if incdir \<noteq> [] then include_dirs @ [incdir] else include_dirs) st)
      else if prefix ''-F'' line then
        (let flist_ref = strip (drop 2 line);
             flist_ref = (if isabs env flist_ref then flist_ref
                          else join_path env cva6_repo_dir flist_ref);
             flist_ref = normpath env flist_ref
         in case recurse flist_ref st of
              OutOfFuel \<Rightarrow> OutOfFuel
            | Raised e \<Rightarrow> Raised e
            | Returned ((sub_files, sub_incdirs), st') \<Rightarrow>
                process_lines env cva6_repo_dir recurse rest
                  (files @ sub_files, include_dirs @ sub_incdirs) st')
      else if match_rtl_file line then
        (let file_path = replace [CHR 0x5C] ''/'' line;
             file_path = (if \<not> prefix ''../'' file_path then ''../'' @ file_path else file_path)
         in process_lines env cva6_repo_dir recurse rest (files @ [file_path], include_dirs) st)
      else process_lines env cva6_repo_dir recurse rest (files, include_dirs) st)"

text \<open>
  process\_flist\_file. The first argument bounds the nesting depth of the recursive
  calls; a call without \<open>processed_flists\<close> is a call with the empty set.
  \<open>os.path.join\<close> with four arguments is the two-argument join repeated. A path
  that exists but is a directory makes \<open>open\<close> raise.
\<close>

primrec process_flist_file ::
  "nat \<Rightarrow> os_env \<Rightarrow> string \<Rightarrow> string \<Rightarrow> string \<Rightarrow> flist_state
     \<Rightarrow> (flist_result \<times> flist_state) outcome" where
  "process_flist_file 0 env cva6_repo_dir target_cfg flist_path st = OutOfFuel"
| "process_flist_file (Suc depth) env cva6_repo_dir target_cfg flist_path st =
     (let flist_path = normpath env (abspath env flist_path) in
      if flist_path \<in> processed_flists st then Returned (([], []), st)
      else
        (let st = st\<lparr>processed_flists := insert flist_path (processed_flists st)\<rparr> in
         case map_of (fs env) flist_path of
           None \<Rightarrow>
             Returned (([], []),
               st\<lparr>io_log := io_log st @ [Warn (''Warning: Flist not found at '' @ flist_path)]\<rparr>)
         | Some Directory \<Rightarrow> Raised (IsADirectoryError flist_path)
         | Some (RegularFile body) \<Rightarrow>
             (let st = st\<lparr>io_log := io_log st @ [Open flist_path]\<rparr>;
                  content = body;
                  hpdcache_dir =
                    join_path env (join_path env (join_path env cva6_repo_dir ''core'')
                      ''cache_subsystem'') ''hpdcache'';
                  content = replace ''${HPDCACHE_DIR}'' (replace [CHR 0x5C] ''/'' hpdcache_dir) content;
                  content = replace ''${CVA6_REPO_DIR}'' (replace [CHR 0x5C] ''/'' cva6_repo_dir) content;
                  content = replace ''${TARGET_CFG}'' target_cfg content
              in process_lines env cva6_repo_dir
                   (process_flist_file depth env cva6_repo_dir target_cfg)
                   (split (CHR 0x0A) content) ([], []) st)))"

text \<open>The paths at which the file system has something.\<close>

definition existing :: "os_env \<Rightarrow> string set" where
  "existing env = fst ` set (fs env)"

text \<open>The files a log says were opened, in order.\<close>

fun opened :: "io_event list \<Rightarrow> string list" where
  "opened [] = []"
| "opened (Open p # es) = p # opened es"
| "opened (Warn w # es) = opened es"

text \<open>
  How a call may change the state: the set only grows, and the files opened meanwhile
  are distinct, were not in the set before and are in it afterwards.
\<close>

definition grows :: "flist_state \<Rightarrow> flist_state \<Rightarrow> bool" where
  "grows st st' =
     (processed_flists st \<subseteq> processed_flists st'
      \<and> (\<exists>new. io_log st' = io_log st @ new \<and> distinct (opened new)
             \<and> set (opened new) \<inter> processed_flists st = {}
             \<and> set (opened new) \<subseteq> processed_flists st'))"

text \<open>
  An example: path functions that leave paths as they are and join with a slash, and
  two file lists in \<open>/r\<close> that reference each other, the second also itself and a
  file that does not exist.
\<close>

definition posix :: "(string \<times> node) list \<Rightarrow> os_env" where
  "posix files = \<lparr>normpath = (\<lambda>p. p), abspath = (\<lambda>p. p),
     join_path = (\<lambda>a b. a @ ''/'' @ b), isabs = prefix ''/'', fs = files\<rparr>"

definition nl :: string where
  "nl = [CHR 0x0A]"

definition cyc :: "(string \<times> node) list" where
  "cyc =
     [(''/r/a.f'', RegularFile (''// top'' @ nl @ ''+incdir+${CVA6_REPO_DIR}/inc'' @ nl
                                 @ ''-F b.f'' @ nl @ ''core/x.sv'' @ nl)),
      (''/r/b.f'', RegularFile (''-F ${CVA6_REPO_DIR}/a.f'' @ nl @ ''  -F b.f'' @ nl
                                 @ ''-F missing.f'' @ nl @ ''../y.v''))]"

section \<open>Properties of the harness\<close>

lemma upt4: "[0..<4] = [0, 1, 2, 3]"
  by (simp add: upt_rec)

lemma length4E: "length xs = 4 \<Longrightarrow> \<exists>a b c d. xs = [a, b, c, d]"
  by (cases xs; simp; cases "tl xs"; simp; cases "tl (tl xs)"; simp;
      cases "tl (tl (tl xs))"; auto)

lemma and255: "(x::int) AND 255 = take_bit 8 x"
  using take_bit_eq_mask[of 8 x] by (simp add: mask_eq_exp_minus_1)

subsection \<open>Packing and unpacking bytes\<close>

lemma byte_decode:
  "-128 \<le> b \<Longrightarrow> b \<le> 127 \<Longrightarrow>
   (let byte = take_bit 8 (b::int) in if byte \<ge> 128 then byte - 256 else byte) = b"
  by (simp add: take_bit_eq_mod Let_def) presburger

lemma pack4_lanes:
  fixes a b c d :: int
  defines "w \<equiv> (((0 OR push_bit 0 (take_bit 8 a)) OR push_bit 8 (take_bit 8 b))
                  OR push_bit 16 (take_bit 8 c)) OR push_bit 24 (take_bit 8 d)"
  shows "take_bit 8 w = take_bit 8 a" "take_bit 8 (drop_bit 8 w) = take_bit 8 b"
   "take_bit 8 (drop_bit 16 w) = take_bit 8 c" "take_bit 8 (drop_bit 24 w) = take_bit 8 d"
  unfolding w_def
  by (simp_all add: bit_eq_iff bit_simps; auto)+

lemma pack_operands4:
  "pack_operands [a, b, c, d] [e, f, g, h] =
     Inr ((((0 OR push_bit 0 (take_bit 8 a)) OR push_bit 8 (take_bit 8 b))
                  OR push_bit 16 (take_bit 8 c)) OR push_bit 24 (take_bit 8 d),
          (((0 OR push_bit 0 (take_bit 8 e)) OR push_bit 8 (take_bit 8 f))
                  OR push_bit 16 (take_bit 8 g)) OR push_bit 24 (take_bit 8 h))"
  by (simp add: pack_operands_def upt4 and255 del: push_bit_of_0 or.left_neutral push_bit_0_id)

lemma get_signed_bytes4:
  "get_signed_bytes val = [signed_byte val 0, signed_byte val 1, signed_byte val 2, signed_byte val 3]"
  by (simp add: get_signed_bytes_def upt4)

lemma signed_byte_range: "- 128 \<le> signed_byte val i \<and> signed_byte val i \<le> 127"
proof -
  define m where "m = drop_bit (i * 8) val mod 256"
  have b: "0 \<le> m" "m < 256"
    by (simp_all add: m_def)
  have "signed_byte val i = (if m \<ge> 128 then m - 256 else m)"
    by (simp add: signed_byte_def and255 Let_def take_bit_eq_mod m_def)
  with b show ?thesis by auto
qed

lemma roundtrip4:
  assumes "\<forall>x\<in>set [a, b, c, d]. - 128 \<le> x \<and> x \<le> 127"
  shows "get_signed_bytes ((((0 OR push_bit 0 (take_bit 8 a)) OR push_bit 8 (take_bit 8 b))
                  OR push_bit 16 (take_bit 8 c)) OR push_bit 24 (take_bit 8 d)) = [a, b, c, d]"
proof -
  define w where "w = (((0 OR push_bit 0 (take_bit 8 a)) OR push_bit 8 (take_bit 8 b))
                  OR push_bit 16 (take_bit 8 c)) OR push_bit 24 (take_bit 8 d)"
  have l: "take_bit 8 (drop_bit 0 w) = take_bit 8 a" "take_bit 8 (drop_bit 8 w) = take_bit 8 b"
    "take_bit 8 (drop_bit 16 w) = take_bit 8 c" "take_bit 8 (drop_bit 24 w) = take_bit 8 d"
    unfolding w_def using pack4_lanes[of a b c d] by simp_all
  have "signed_byte w 0 = a" "signed_byte w 1 = b" "signed_byte w 2 = c" "signed_byte w 3 = d"
    using assms byte_decode[of a] byte_decode[of b] byte_decode[of c] byte_decode[of d] l
    by (simp_all add: signed_byte_def and255 Let_def)
  then show ?thesis
    unfolding w_def[symmetric] by (simp add: get_signed_bytes4)
qed

text \<open>
  C9: four integers in [-128,127] (for each operand) that are packed by the loop of
  test\_simd\_dot are given back by get\_signed\_bytes; and for every input in
  [0, 2^32) each value get\_signed\_bytes returns is in [-128,127].
\<close>

theorem get_signed_bytes_roundtrip:
  "(length rs1_bytes = 4 \<and> length rs2_bytes = 4
      \<and> (\<forall>b\<in>set rs1_bytes. - 128 \<le> b \<and> b \<le> 127)
      \<and> (\<forall>b\<in>set rs2_bytes. - 128 \<le> b \<and> b \<le> 127)
    \<longrightarrow> (case pack_operands rs1_bytes rs2_bytes of
           Inl e \<Rightarrow> False
         | Inr (rs1_val, rs2_val) \<Rightarrow>
             get_signed_bytes rs1_val = rs1_bytes \<and> get_signed_bytes rs2_val = rs2_bytes))
   \<and> (0 \<le> val \<and> val < 2 ^ 32
    \<longrightarrow> (\<forall>b\<in>set (get_signed_bytes val). - 128 \<le> b \<and> b \<le> 127))"
proof (intro conjI impI)
  assume h: "length rs1_bytes = 4 \<and> length rs2_bytes = 4
      \<and> (\<forall>b\<in>set rs1_bytes. - 128 \<le> b \<and> b \<le> 127)
      \<and> (\<forall>b\<in>set rs2_bytes. - 128 \<le> b \<and> b \<le> 127)"
  obtain a b c d where r1: "rs1_bytes = [a, b, c, d]" using h length4E by blast
  obtain e f g k where r2: "rs2_bytes = [e, f, g, k]" using h length4E by blast
  have "\<forall>x\<in>set [a, b, c, d]. - 128 \<le> x \<and> x \<le> 127" using h r1 by simp
  from roundtrip4[OF this] have 1: "get_signed_bytes ((((0 OR push_bit 0 (take_bit 8 a)) OR push_bit 8 (take_bit 8 b))
                  OR push_bit 16 (take_bit 8 c)) OR push_bit 24 (take_bit 8 d)) = [a, b, c, d]" .
  have "\<forall>x\<in>set [e, f, g, k]. - 128 \<le> x \<and> x \<le> 127" using h r2 by simp
  from roundtrip4[OF this] have 2: "get_signed_bytes ((((0 OR push_bit 0 (take_bit 8 e)) OR push_bit 8 (take_bit 8 f))
                  OR push_bit 16 (take_bit 8 g)) OR push_bit 24 (take_bit 8 k)) = [e, f, g, k]" .
  show "case pack_operands rs1_bytes rs2_bytes of
           Inl e \<Rightarrow> False
         | Inr (rs1_val, rs2_val) \<Rightarrow>
             get_signed_bytes rs1_val = rs1_bytes \<and> get_signed_bytes rs2_val = rs2_bytes"
    unfolding r1 r2 pack_operands4 using 1 2 by simp
next
  assume "0 \<le> val \<and> val < 2 ^ 32"
  show "\<forall>b\<in>set (get_signed_bytes val). - 128 \<le> b \<and> b \<le> 127"
    using signed_byte_range[of val] by (simp add: get_signed_bytes4)
qed

theorem get_signed_bytes_roundtrip_witness:
  "pack_operands [1, - 2, 127, - 128] [0, - 1, 5, 100] = Inr (2155871745, 1678114560)
   \<and> get_signed_bytes 2155871745 = [1, - 2, 127, - 128]
   \<and> get_signed_bytes 1678114560 = [0, - 1, 5, 100]
   \<and> get_signed_bytes 4294967295 = [- 1, - 1, - 1, - 1]"
  using get_signed_bytes_roundtrip[of "[1, - 2, 127, - 128]" "[0, - 1, 5, 100]" 4294967295]
  by (simp add: pack_operands_def upt4 get_signed_bytes4 signed_byte_def)

subsection \<open>The reset sequence\<close>

lemma reset_dut_eq: "reset_dut tr0 = tr0 @ reset_events"
  by (simp add: reset_dut_def reset_events_def drive_def await_timer_def await_rising_edge_def)

text \<open>
  C8: the reset sequence assigns zero to every input port (the metadata ports
  hartid\_i, id\_i and rd\_addr\_i among them) with rst\_ni at 0, waits 20 ns, sets
  rst\_ni to 1 and then awaits one rising clock edge.
\<close>

theorem reset_dut_sequence:
  "reset_dut tr0 = tr0 @
     [Write rst_ni 0, Write rs1_i 0, Write rs2_i 0, Write rd_i 0, Write opcode_i 0,
      Write hartid_i 0, Write id_i 0, Write rd_addr_i 0, Timer 20, Write rst_ni 1, RisingEdge]
   \<and> (\<forall>p. Write p 0 \<in> set (take 8 (drop (length tr0) (reset_dut tr0))))"
proof -
  have "Write p 0 \<in> set (take 8 reset_events)" for p
    by (cases p) (simp_all add: reset_events_def)
  then show ?thesis
    by (simp add: reset_dut_eq) (simp add: reset_events_def)
qed

subsection \<open>The SIMD\_DOT golden model\<close>

lemma byte_product_bounds:
  fixes x y :: int
  assumes "- 128 \<le> x" "x \<le> 127" "- 128 \<le> y" "y \<le> 127"
  shows "- 16384 \<le> x * y \<and> x * y \<le> 16384"
proof -
  have "\<bar>x\<bar> \<le> 128" "\<bar>y\<bar> \<le> 128" using assms by auto
  then have "\<bar>x\<bar> * \<bar>y\<bar> \<le> 128 * 128"
    by (intro mult_mono) auto
  then have "\<bar>x * y\<bar> \<le> 16384" by (simp add: abs_mult)
  then show ?thesis by auto
qed

lemma sum4: "(\<Sum>i<4. f i) = f 0 + f 1 + f 2 + ((f :: nat \<Rightarrow> int) 3)"
proof -
  have "{..<4::nat} = {0, 1, 2, 3}" by auto
  then show ?thesis by simp
qed

lemma dot_loop4:
  "dot_loop [a, b, c, d] [e, f, g, h] [0..<4] 0 = Inr (a * e + b * f + c * g + d * h)"
  by (simp add: upt4)

text \<open>
  C1: for four lanes in [-128,127] on each side and an accumulator in the signed 32-bit
  range, the expected value of the SIMD\_DOT model is the dot product plus the
  accumulator reduced modulo 2^32 into [-2^31, 2^31 - 1]: the one conditional
  correction by 2^32 is the full reduction.
\<close>

theorem simd_expected_wraps:
  assumes "length rs1_bytes = 4" and "length rs2_bytes = 4"
    and "\<forall>b\<in>set rs1_bytes. - 128 \<le> b \<and> b \<le> 127"
    and "\<forall>b\<in>set rs2_bytes. - 128 \<le> b \<and> b \<le> 127"
    and "- 2147483648 \<le> acc_val" and "acc_val \<le> 2147483647"
  shows "simd_expected rs1_bytes rs2_bytes acc_val =
           Inr (let total = (\<Sum>i<4. rs1_bytes ! i * rs2_bytes ! i) + acc_val;
                    m = total mod 2 ^ 32
                in if m < 2 ^ 31 then m else m - 2 ^ 32)"
proof -
  obtain a b c d where r1: "rs1_bytes = [a, b, c, d]" using assms(1) length4E by blast
  obtain e f g h where r2: "rs2_bytes = [e, f, g, h]" using assms(2) length4E by blast
  define t where "t = a * e + b * f + c * g + d * h + acc_val"
  have s: "(\<Sum>i<4. rs1_bytes ! i * rs2_bytes ! i) + acc_val = t"
    by (simp add: r1 r2 t_def sum4)
  have p: "- 16384 \<le> a * e \<and> a * e \<le> 16384" "- 16384 \<le> b * f \<and> b * f \<le> 16384"
    "- 16384 \<le> c * g \<and> c * g \<le> 16384" "- 16384 \<le> d * h \<and> d * h \<le> 16384"
    using assms(3,4) byte_product_bounds[of a e] byte_product_bounds[of b f]
      byte_product_bounds[of c g] byte_product_bounds[of d h]
    by (simp_all add: r1 r2)
  have tb: "- 2147483648 - 65536 \<le> t" "t \<le> 2147483647 + 65536"
    using p assms(5,6) by (simp_all add: t_def)
  have e: "simd_expected rs1_bytes rs2_bytes acc_val =
      Inr (if t > 2147483647 then t - 4294967296
           else if t < - 2147483648 then t + 4294967296 else t)"
    by (simp add: simd_expected_def r1 r2 dot_loop4 t_def Let_def)
  have "(if t > 2147483647 then t - 4294967296
           else if t < - 2147483648 then t + 4294967296 else t)
        = (let m = t mod 2 ^ 32 in if m < 2 ^ 31 then m else m - 2 ^ 32)"
  proof -
    consider "t > 2147483647" | "t < - 2147483648" | "0 \<le> t" "t \<le> 2147483647"
      | "- 2147483648 \<le> t" "t < 0" by linarith
    then show ?thesis
    proof cases
      case 1
      then have "t mod 2 ^ 32 = t" using tb by (intro mod_pos_pos_trivial) simp_all
      then show ?thesis using 1 by (simp add: Let_def)
    next
      case 2
      have "(t + 2 ^ 32) mod 2 ^ 32 = t + 2 ^ 32" using 2 tb by (intro mod_pos_pos_trivial) simp_all
      then have "t mod 2 ^ 32 = t + 2 ^ 32" by simp
      then show ?thesis using 2 by (simp add: Let_def)
    next
      case 3
      then have "t mod 2 ^ 32 = t" by (intro mod_pos_pos_trivial) simp_all
      then show ?thesis using 3 by (simp add: Let_def)
    next
      case 4
      have "(t + 2 ^ 32) mod 2 ^ 32 = t + 2 ^ 32" using 4 by (intro mod_pos_pos_trivial) simp_all
      then have "t mod 2 ^ 32 = t + 2 ^ 32" by simp
      then show ?thesis using 4 by (simp add: Let_def)
    qed
  qed
  then show ?thesis
    unfolding e s by (simp add: Let_def)
qed

theorem simd_expected_wraps_witness:
  "simd_expected [127, 127, 127, 127] [127, 127, 127, 127] 2147483647 = Inr (- 2147419133)"
  using simd_expected_wraps[of "[127, 127, 127, 127]" "[127, 127, 127, 127]" 2147483647]
  by (simp add: sum4)

subsection \<open>The MAC8 test\<close>

lemma test_mac8_legacy_eq:
  "test_mac8_legacy d tr0 =
     (let tr = tr0 @ StartClock 10 # reset_events @ mac8_events; got = d tr result_o
      in (tr @ [Sample result_o],
          if got \<noteq> - 30 then Inl (AssertionError (mac8_msg (- 30) got)) else Inr ()))"
  by (simp add: test_mac8_legacy_def reset_dut_eq start_clock_def drive_def await_rising_edge_def
       sample_def mac8_events_def mac8_expected_def OP_MAC8_def Let_def and255)





text \<open>
  C5: for the MAC8 vector rs1 = 10, rs2 = -5, acc = 20 the expected value is -30, and
  the test passes exactly when the result sampled after the two edges is -30.
\<close>

theorem mac8_directed_vector:
  "mac8_expected 10 (- 5) 20 = - 30
   \<and> (snd (test_mac8_legacy d tr0) = Inr ())
       = (d (tr0 @ StartClock 10 # reset_events @ mac8_events) result_o = - 30)"
  by (simp add: test_mac8_legacy_eq Let_def) (simp add: mac8_expected_def)

text \<open>
  C3: the claim asks the MAC8 test to assert valid\_o = 1. With a design that answers
  -30 on result\_o and keeps valid\_o at 0, test\_mac8\_legacy passes.
\<close>

theorem test_mac8_legacy_ignores_valid:
  "snd (test_mac8_legacy (\<lambda>tr p. case p of result_o \<Rightarrow> - 30 | valid_o \<Rightarrow> 0) []) = Inr ()"
  by (simp add: test_mac8_legacy_eq Let_def)

subsection \<open>The loop of test\_simd\_dot\<close>

lemma randint_range:
  assumes "a \<le> b"
  shows "a \<le> fst (randint a b g) \<and> fst (randint a b g) \<le> b"
proof -
  have "0 < nat (b - a + 1)" using assms by simp
  then have "g 0 mod nat (b - a + 1) < nat (b - a + 1)" by (rule mod_less_divisor)
  then have "int (g 0 mod nat (b - a + 1)) < b - a + 1" using assms by linarith
  then show ?thesis by (simp add: randint_def)
qed

lemma randint_list_props:
  assumes "a \<le> b"
  shows "length (fst (randint_list n a b g)) = n
         \<and> (\<forall>x\<in>set (fst (randint_list n a b g)). a \<le> x \<and> x \<le> b)"
proof (induction n arbitrary: g)
  case 0
  then show ?case by simp
next
  case (Suc n)
  obtain x g1 where r: "randint a b g = (x, g1)" by (cases "randint a b g")
  obtain xs g2 where l: "randint_list n a b g1 = (xs, g2)" by (cases "randint_list n a b g1")
  have "a \<le> x \<and> x \<le> b" using randint_range[OF assms, of g] r by simp
  moreover have "length xs = n \<and> (\<forall>x\<in>set xs. a \<le> x \<and> x \<le> b)" using Suc[of g1] l by simp
  ultimately show ?case by (simp add: r l)
qed

lemma gen_inputs_props:
  assumes "gen_inputs g = ((rs1_bytes, rs2_bytes, acc_val), g')"
  shows "length rs1_bytes = 4" "length rs2_bytes = 4"
    "\<forall>b\<in>set rs1_bytes. - 128 \<le> b \<and> b \<le> 127"
    "\<forall>b\<in>set rs2_bytes. - 128 \<le> b \<and> b \<le> 127"
    "- 2147483648 \<le> acc_val" "acc_val \<le> 2147483647"
proof -
  obtain r1 g1 where a: "randint_list 4 (- 128) 127 g = (r1, g1)"
    by (cases "randint_list 4 (- 128) 127 g")
  obtain r2 g2 where b: "randint_list 4 (- 128) 127 g1 = (r2, g2)"
    by (cases "randint_list 4 (- 128) 127 g1")
  obtain ac g3 where c: "randint (- 2147483648) 2147483647 g2 = (ac, g3)"
    by (cases "randint (- 2147483648) 2147483647 g2")
  have e: "rs1_bytes = r1" "rs2_bytes = r2" "acc_val = ac"
    using assms by (simp_all add: gen_inputs_def a b c)
  have p1: "length r1 = 4 \<and> (\<forall>x\<in>set r1. - 128 \<le> x \<and> x \<le> 127)"
    using randint_list_props[of "- 128" 127 4 g] a by simp
  have p2: "length r2 = 4 \<and> (\<forall>x\<in>set r2. - 128 \<le> x \<and> x \<le> 127)"
    using randint_list_props[of "- 128" 127 4 g1] b by simp
  have p3: "- 2147483648 \<le> ac \<and> ac \<le> 2147483647"
    using randint_range[of "- 2147483648" 2147483647 g2] c by simp
  show "length rs1_bytes = 4" "length rs2_bytes = 4"
    "\<forall>b\<in>set rs1_bytes. - 128 \<le> b \<and> b \<le> 127"
    "\<forall>b\<in>set rs2_bytes. - 128 \<le> b \<and> b \<le> 127"
    "- 2147483648 \<le> acc_val" "acc_val \<le> 2147483647"
    using p1 p2 p3 by (simp_all add: e)
qed

lemma pack_operands_Inr:
  assumes "length rs1_bytes = 4" "length rs2_bytes = 4"
  shows "\<exists>rs1_val rs2_val. pack_operands rs1_bytes rs2_bytes = Inr (rs1_val, rs2_val)"
proof -
  obtain a b c d where r1: "rs1_bytes = [a, b, c, d]" using assms(1) length4E by blast
  obtain e f g h where r2: "rs2_bytes = [e, f, g, h]" using assms(2) length4E by blast
  show ?thesis unfolding r1 r2 pack_operands4 by blast
qed

lemma simd_expected_Inr:
  assumes "length rs1_bytes = 4" "length rs2_bytes = 4"
  shows "\<exists>expected. simd_expected rs1_bytes rs2_bytes acc_val = Inr expected"
proof -
  obtain a b c d where r1: "rs1_bytes = [a, b, c, d]" using assms(1) length4E by blast
  obtain e f g h where r2: "rs2_bytes = [e, f, g, h]" using assms(2) length4E by blast
  show ?thesis unfolding r1 r2 by (simp add: simd_expected_def dot_loop4 Let_def)
qed

lemma simd_iteration_eq:
  assumes "gen_inputs g = ((rs1_bytes, rs2_bytes, acc_val), g')"
    and "pack_operands rs1_bytes rs2_bytes = Inr (rs1_val, rs2_val)"
    and "simd_expected rs1_bytes rs2_bytes acc_val = Inr expected"
  shows "simd_iteration d i g tr =
     (tr @ simd_vector_events rs1_val rs2_val acc_val,
      case simd_check i rs1_bytes rs2_bytes acc_val expected
             (d (tr @ take 6 (simd_vector_events rs1_val rs2_val acc_val)) result_o)
             (d (tr @ take 7 (simd_vector_events rs1_val rs2_val acc_val)) valid_o) of
        Inl e \<Rightarrow> Inl e
      | Inr u \<Rightarrow> Inr g')"
  by (simp add: simd_iteration_def assms drive_def await_rising_edge_def sample_def
        simd_vector_events_def OP_SIMD_DOT_def Let_def split: sum.splits)

lemma simd_loop_append:
  "simd_loop d (xs @ ys) g tr =
     (case simd_loop d xs g tr of
        (tr', Inl e) \<Rightarrow> (tr', Inl e)
      | (tr', Inr g') \<Rightarrow> simd_loop d ys g' tr')"
  by (induction xs arbitrary: g tr) (auto split: prod.splits sum.splits)

lemma or_push_bit_add:
  fixes x y :: int
  assumes "0 \<le> x" "x < 2 ^ n"
  shows "x OR push_bit n y = x + y * 2 ^ n"
proof -
  have "x OR push_bit n y = concat_bit n x y"
    using assms by (simp add: concat_bit_def take_bit_int_eq_self)
  also have "\<dots> = take_bit n x + push_bit n y" by (rule concat_bit_eq)
  finally show ?thesis using assms by (simp add: take_bit_int_eq_self push_bit_eq_mult)
qed

lemma pack4_sum:
  fixes a b c d :: int
  shows "(((0 OR push_bit 0 (take_bit 8 a)) OR push_bit 8 (take_bit 8 b))
                  OR push_bit 16 (take_bit 8 c)) OR push_bit 24 (take_bit 8 d)
         = a mod 256 + (b mod 256) * 256 + (c mod 256) * 65536 + (d mod 256) * 16777216"
proof -
  define a0 where "a0 = a mod 256"
  define a1 where "a1 = b mod 256"
  define a2 where "a2 = c mod 256"
  define a3 where "a3 = d mod 256"
  have b: "0 \<le> a0" "a0 < 256" "0 \<le> a1" "a1 < 256" "0 \<le> a2" "a2 < 256" "0 \<le> a3" "a3 < 256"
    by (simp_all add: a0_def a1_def a2_def a3_def)
  have 1: "a0 OR push_bit 8 a1 = a0 + a1 * 256"
    using or_push_bit_add[of a0 8 a1] b by simp
  have 2: "(a0 + a1 * 256) OR push_bit 16 a2 = a0 + a1 * 256 + a2 * 65536"
    using or_push_bit_add[of "a0 + a1 * 256" 16 a2] b by simp
  have 3: "(a0 + a1 * 256 + a2 * 65536) OR push_bit 24 a3
             = a0 + a1 * 256 + a2 * 65536 + a3 * 16777216"
    using or_push_bit_add[of "a0 + a1 * 256 + a2 * 65536" 24 a3] b by simp
  have "(((0 OR push_bit 0 a0) OR push_bit 8 a1) OR push_bit 16 a2) OR push_bit 24 a3
          = a0 + a1 * 256 + a2 * 65536 + a3 * 16777216"
    by (simp add: 1 2 3)
  then show ?thesis
    by (simp only: take_bit_eq_mod a0_def a1_def a2_def a3_def) simp
qed

lemma pack_operands_sum:
  assumes "length rs1_bytes = 4" "length rs2_bytes = 4"
  shows "pack_operands rs1_bytes rs2_bytes =
           Inr (\<Sum>k<4. (rs1_bytes ! k mod 256) * 256 ^ k, \<Sum>k<4. (rs2_bytes ! k mod 256) * 256 ^ k)"
proof -
  obtain a b c d where r1: "rs1_bytes = [a, b, c, d]" using assms(1) length4E by blast
  obtain e f g h where r2: "rs2_bytes = [e, f, g, h]" using assms(2) length4E by blast
  show ?thesis unfolding r1 r2 pack_operands4 pack4_sum by (simp add: sum4)
qed

lemma test_simd_dot_eq:
  "test_simd_dot d g tr0 =
     (case simd_loop d [0..<1000] g (tr0 @ StartClock 10 # reset_events) of
        (tr', Inl e) \<Rightarrow> (tr', Inl e)
      | (tr', Inr g') \<Rightarrow> (tr' @ [LogInfo ''SIMD_DOT verification passed (1000 vectors)''], Inr ()))"
  by (simp add: test_simd_dot_def start_clock_def reset_dut_eq log_info_def)

lemma count_block:
  "length (filter (\<lambda>e. e = Write opcode_i 5)
      (concat (map (\<lambda>(a, b, c). simd_vector_events a b c) vs))) = length vs"
  by (induction vs) (auto simp: simd_vector_events_def)

lemma count_reset: "filter (\<lambda>e. e = Write opcode_i 5) reset_events = []"
  by (simp add: reset_events_def)

text \<open>
  A generator whose raw draws are all zero, and a design that always answers the value
  expected for them.
\<close>

lemma randint_list4:
  "randint_list 4 a b g =
     (let (x0, g) = randint a b g; (x1, g) = randint a b g;
          (x2, g) = randint a b g; (x3, g) = randint a b g
      in ([x0, x1, x2, x3], g))"
  by (simp add: eval_nat_numeral Let_def split: prod.splits)

lemma gen_inputs_zero:
  "gen_inputs (\<lambda>n. 0) =
     (([- 128, - 128, - 128, - 128], [- 128, - 128, - 128, - 128], - 2147483648), \<lambda>n. 0)"
  by (simp add: gen_inputs_def randint_list4 randint_def)

lemma pack_operands_zero:
  "pack_operands [- 128, - 128, - 128, - 128] [- 128, - 128, - 128, - 128]
     = Inr (2155905152, 2155905152)"
  by (simp add: pack_operands_def upt4)

lemma simd_expected_zero:
  "simd_expected [- 128, - 128, - 128, - 128] [- 128, - 128, - 128, - 128] (- 2147483648)
     = Inr (- 2147418112)"
  by (simp add: simd_expected_def upt4)

lemma simd_iteration_zero:
  "simd_iteration d i (\<lambda>n. 0) tr =
     (tr @ simd_vector_events 2155905152 2155905152 (- 2147483648),
      case simd_check i [- 128, - 128, - 128, - 128] [- 128, - 128, - 128, - 128]
             (- 2147483648) (- 2147418112)
             (d (tr @ take 6 (simd_vector_events 2155905152 2155905152 (- 2147483648))) result_o)
             (d (tr @ take 7 (simd_vector_events 2155905152 2155905152 (- 2147483648))) valid_o) of
        Inl e \<Rightarrow> Inl e
      | Inr u \<Rightarrow> Inr (\<lambda>n. 0))"
  by (rule simd_iteration_eq[OF gen_inputs_zero pack_operands_zero simd_expected_zero])

lemma simd_loop_passes:
  "snd (simd_loop (\<lambda>tr p. case p of result_o \<Rightarrow> - 2147418112 | valid_o \<Rightarrow> 1) xs (\<lambda>n. 0) tr)
     = Inr (\<lambda>n. 0)"
  by (induction xs arbitrary: tr) (simp_all add: simd_iteration_zero simd_check_def)

lemma test_simd_dot_passes:
  "snd (test_simd_dot (\<lambda>tr p. case p of result_o \<Rightarrow> - 2147418112 | valid_o \<Rightarrow> 1) (\<lambda>n. 0) [])
     = Inr ()"
proof -
  obtain tr' where "simd_loop (\<lambda>tr p. case p of result_o \<Rightarrow> - 2147418112 | valid_o \<Rightarrow> 1)
      [0..<1000] (\<lambda>n. 0) ([] @ StartClock 10 # reset_events) = (tr', Inr (\<lambda>n. 0))"
    using simd_loop_passes[of "[0..<1000]" "[] @ StartClock 10 # reset_events"]
    by (metis prod.collapse)
  then show ?thesis unfolding test_simd_dot_eq by simp
qed

subsection \<open>Failing checks\<close>

lemma sublist_skip: "sublist x ys \<Longrightarrow> sublist x (p @ ys)"
  unfolding sublist_def by (metis append_assoc)

lemma sublist_here: "sublist x (x @ r)"
  unfolding sublist_def by (metis append_Nil)

lemma sublist_self: "sublist x x"
  unfolding sublist_def by (metis append_Nil append_Nil2)

lemma mismatch_msg_contains:
  "sublist (str_int (int i)) (mismatch_msg i rs1_bytes rs2_bytes acc_val expected got)"
  "sublist (str_list rs1_bytes) (mismatch_msg i rs1_bytes rs2_bytes acc_val expected got)"
  "sublist (str_list rs2_bytes) (mismatch_msg i rs1_bytes rs2_bytes acc_val expected got)"
  "sublist (str_int acc_val) (mismatch_msg i rs1_bytes rs2_bytes acc_val expected got)"
  "sublist (str_int expected) (mismatch_msg i rs1_bytes rs2_bytes acc_val expected got)"
  "sublist (str_int got) (mismatch_msg i rs1_bytes rs2_bytes acc_val expected got)"
  unfolding mismatch_msg_def
  subgoal
    by (rule sublist_skip, rule sublist_here)
  subgoal
    by (rule sublist_skip, rule sublist_skip, rule sublist_skip, rule sublist_here)
  subgoal
    by (rule sublist_skip, rule sublist_skip, rule sublist_skip, rule sublist_skip, rule sublist_skip, rule sublist_here)
  subgoal
    by (rule sublist_skip, rule sublist_skip, rule sublist_skip, rule sublist_skip, rule sublist_skip, rule sublist_skip, rule sublist_skip, rule sublist_here)
  subgoal
    by (rule sublist_skip, rule sublist_skip, rule sublist_skip, rule sublist_skip, rule sublist_skip, rule sublist_skip, rule sublist_skip, rule sublist_skip, rule sublist_skip, rule sublist_skip, rule sublist_here)
  subgoal
    by (rule sublist_skip, rule sublist_skip, rule sublist_skip, rule sublist_skip, rule sublist_skip, rule sublist_skip, rule sublist_skip, rule sublist_skip, rule sublist_skip, rule sublist_skip, rule sublist_skip, rule sublist_skip, rule sublist_self)
  done


lemma str_nat_digit: "n < 10 \<Longrightarrow> str_nat n = [''0123456789'' ! n]"
  by (subst str_nat.simps) simp

lemma str_nat_more: "10 \<le> n \<Longrightarrow> str_nat n = str_nat (n div 10) @ [''0123456789'' ! (n mod 10)]"
  by (subst str_nat.simps) simp

lemma str_int_0: "str_int 0 = ''0''"
  by (simp add: str_int_def str_nat_digit)

lemma simd_loop_fails_at:
  assumes "k < n"
    and "simd_loop d [0..<k] g tr0 = (tr, Inr gk)"
    and "simd_iteration d k gk tr = (tr', Inl e)"
  shows "simd_loop d [0..<n] g tr0 = (tr', Inl e)"
proof -
  have "[0..<n] = [0..<k] @ k # [Suc k..<n]"
    using assms(1) by (metis le_add1 less_imp_add_positive upt_add_eq_append upt_conv_Cons zero_le)
  then show ?thesis
    by (simp add: simd_loop_append assms(2,3))
qed

text \<open>
  C7, as stated, fails for the valid flag: with a design whose valid\_o stays 0 the
  test raises at iteration 0 with the fixed message of the first assertion, which
  does not contain the iteration index.
\<close>

theorem simd_mismatch_counterexample:
  "snd (test_simd_dot (\<lambda>tr p. 0) (\<lambda>n. 0) [])
     = Inl (AssertionError ''Output should be valid for SIMD_DOT'')
   \<and> \<not> sublist (str_int 0) ''Output should be valid for SIMD_DOT''"
proof -
  have it: "simd_iteration (\<lambda>tr p. 0) 0 (\<lambda>n. 0) ([] @ StartClock 10 # reset_events)
       = (([] @ StartClock 10 # reset_events) @ simd_vector_events 2155905152 2155905152 (- 2147483648),
          Inl (AssertionError valid_msg))"
    by (simp add: simd_iteration_zero simd_check_def)
  have "simd_loop (\<lambda>tr p. 0) [0..<1000] (\<lambda>n. 0) ([] @ StartClock 10 # reset_events)
       = (([] @ StartClock 10 # reset_events) @ simd_vector_events 2155905152 2155905152 (- 2147483648),
          Inl (AssertionError valid_msg))"
    by (rule simd_loop_fails_at[where k = 0 and tr = "[] @ StartClock 10 # reset_events", OF _ _ it])
       simp_all
  then have "snd (test_simd_dot (\<lambda>tr p. 0) (\<lambda>n. 0) []) = Inl (AssertionError valid_msg)"
    unfolding test_simd_dot_eq by simp
  moreover have "\<not> sublist (str_int 0) ''Output should be valid for SIMD_DOT''"
    by (simp add: str_int_0 sublist_code)
  ultimately show ?thesis by (simp add: valid_msg_def)
qed

text \<open>
  C7, amended: when the sampled valid flag is not 1 the check raises AssertionError
  with the fixed message "Output should be valid for SIMD\_DOT"; when the flag is 1 and
  the sampled value differs from the expected one it raises AssertionError with a
  message that contains the iteration index, both byte lists, the accumulator, the
  expected and the captured value; otherwise it passes. The check is applied to the
  values sampled after the two edges of the iteration, and an iteration that raises
  ends the test with that exception and with the trace as that iteration left it:
  no later iteration runs.
\<close>

theorem simd_mismatch_aborts:
  "(valid \<noteq> 1 \<longrightarrow>
      simd_check i rs1_bytes rs2_bytes acc_val expected got valid
        = Inl (AssertionError ''Output should be valid for SIMD_DOT''))
   \<and> (valid = 1 \<and> got \<noteq> expected \<longrightarrow>
      (\<exists>msg. simd_check i rs1_bytes rs2_bytes acc_val expected got valid
                = Inl (AssertionError msg)
         \<and> sublist (str_int (int i)) msg
         \<and> sublist (str_list rs1_bytes) msg \<and> sublist (str_list rs2_bytes) msg
         \<and> sublist (str_int acc_val) msg
         \<and> sublist (str_int expected) msg \<and> sublist (str_int got) msg))
   \<and> (valid = 1 \<and> got = expected \<longrightarrow>
      simd_check i rs1_bytes rs2_bytes acc_val expected got valid = Inr ())
   \<and> (gen_inputs g = ((rs1_bytes, rs2_bytes, acc_val), g')
        \<and> pack_operands rs1_bytes rs2_bytes = Inr (rs1_val, rs2_val)
        \<and> simd_expected rs1_bytes rs2_bytes acc_val = Inr model \<longrightarrow>
      simd_iteration d i g tr =
        (tr @ [Write rs1_i rs1_val, Write rs2_i rs2_val, Write rd_i acc_val, Write opcode_i 5,
               RisingEdge, RisingEdge, Sample result_o, Sample valid_o],
         case simd_check i rs1_bytes rs2_bytes acc_val model
                (d (tr @ [Write rs1_i rs1_val, Write rs2_i rs2_val, Write rd_i acc_val,
                          Write opcode_i 5, RisingEdge, RisingEdge]) result_o)
                (d (tr @ [Write rs1_i rs1_val, Write rs2_i rs2_val, Write rd_i acc_val,
                          Write opcode_i 5, RisingEdge, RisingEdge, Sample result_o]) valid_o) of
           Inl e \<Rightarrow> Inl e
         | Inr u \<Rightarrow> Inr g'))
   \<and> (k < 1000
        \<and> simd_loop d [0..<k] g0 (tr0 @ StartClock 10 # reset_events) = (trk, Inr gk)
        \<and> simd_iteration d k gk trk = (tr', Inl e) \<longrightarrow>
      test_simd_dot d g0 tr0 = (tr', Inl e))"
proof (intro conjI impI)
  show "simd_check i rs1_bytes rs2_bytes acc_val expected got valid
        = Inl (AssertionError ''Output should be valid for SIMD_DOT'')" if "valid \<noteq> 1"
    using that by (simp add: simd_check_def valid_msg_def)
  show "\<exists>msg. simd_check i rs1_bytes rs2_bytes acc_val expected got valid
                = Inl (AssertionError msg)
         \<and> sublist (str_int (int i)) msg
         \<and> sublist (str_list rs1_bytes) msg \<and> sublist (str_list rs2_bytes) msg
         \<and> sublist (str_int acc_val) msg
         \<and> sublist (str_int expected) msg \<and> sublist (str_int got) msg"
    if "valid = 1 \<and> got \<noteq> expected"
    by (rule exI[of _ "mismatch_msg i rs1_bytes rs2_bytes acc_val expected got"])
       (use that in \<open>simp add: simd_check_def mismatch_msg_contains\<close>)
  show "simd_check i rs1_bytes rs2_bytes acc_val expected got valid = Inr ()"
    if "valid = 1 \<and> got = expected"
    using that by (simp add: simd_check_def)
  show "simd_iteration d i g tr =
        (tr @ [Write rs1_i rs1_val, Write rs2_i rs2_val, Write rd_i acc_val, Write opcode_i 5,
               RisingEdge, RisingEdge, Sample result_o, Sample valid_o],
         case simd_check i rs1_bytes rs2_bytes acc_val model
                (d (tr @ [Write rs1_i rs1_val, Write rs2_i rs2_val, Write rd_i acc_val,
                          Write opcode_i 5, RisingEdge, RisingEdge]) result_o)
                (d (tr @ [Write rs1_i rs1_val, Write rs2_i rs2_val, Write rd_i acc_val,
                          Write opcode_i 5, RisingEdge, RisingEdge, Sample result_o]) valid_o) of
           Inl e \<Rightarrow> Inl e
         | Inr u \<Rightarrow> Inr g')"
    if "gen_inputs g = ((rs1_bytes, rs2_bytes, acc_val), g')
        \<and> pack_operands rs1_bytes rs2_bytes = Inr (rs1_val, rs2_val)
        \<and> simd_expected rs1_bytes rs2_bytes acc_val = Inr model"
    using simd_iteration_eq[of g rs1_bytes rs2_bytes acc_val g' rs1_val rs2_val model d i tr] that
    by (simp add: simd_vector_events_def)
  show "test_simd_dot d g0 tr0 = (tr', Inl e)"
    if "k < 1000
        \<and> simd_loop d [0..<k] g0 (tr0 @ StartClock 10 # reset_events) = (trk, Inr gk)
        \<and> simd_iteration d k gk trk = (tr', Inl e)"
    using simd_loop_fails_at[of k 1000 d g0 "tr0 @ StartClock 10 # reset_events" trk gk tr' e] that
    unfolding test_simd_dot_eq by simp
qed


theorem simd_mismatch_aborts_witness:
  "simd_check 7 [1, 2, 1, 2] [0, 1, 0, 1] (- 3) 1 2 0
     = Inl (AssertionError ''Output should be valid for SIMD_DOT'')
   \<and> (\<exists>msg. simd_check 7 [1, 2, 1, 2] [0, 1, 0, 1] (- 3) 1 2 1 = Inl (AssertionError msg)
         \<and> sublist (str_int (int 7)) msg
         \<and> sublist (str_list [1, 2, 1, 2]) msg \<and> sublist (str_list [0, 1, 0, 1]) msg
         \<and> sublist (str_int (- 3)) msg
         \<and> sublist (str_int 1) msg \<and> sublist (str_int 2) msg)
   \<and> simd_check 7 [1, 2, 1, 2] [0, 1, 0, 1] (- 3) 1 1 1 = Inr ()
   \<and> simd_iteration (\<lambda>tr p. 0) 0 (\<lambda>n. 0) (StartClock 10 # reset_events) =
       (StartClock 10 # reset_events
          @ [Write rs1_i 2155905152, Write rs2_i 2155905152, Write rd_i (- 2147483648),
             Write opcode_i 5, RisingEdge, RisingEdge, Sample result_o, Sample valid_o],
        Inl (AssertionError ''Output should be valid for SIMD_DOT''))
   \<and> test_simd_dot (\<lambda>tr p. 0) (\<lambda>n. 0) [] =
       (StartClock 10 # reset_events
          @ [Write rs1_i 2155905152, Write rs2_i 2155905152, Write rd_i (- 2147483648),
             Write opcode_i 5, RisingEdge, RisingEdge, Sample result_o, Sample valid_o],
        Inl (AssertionError ''Output should be valid for SIMD_DOT''))"
proof -
  note A = simd_mismatch_aborts[THEN conjunct1]
  note B = simd_mismatch_aborts[where i = 7 and valid = 1 and got = 2 and expected = 1,
      THEN conjunct2, THEN conjunct1]
  note C = simd_mismatch_aborts[THEN conjunct2, THEN conjunct2, THEN conjunct1]
  note D = simd_mismatch_aborts[where g = "\<lambda>n. 0" and d = "\<lambda>tr p. 0" and i = 0
      and tr = "StartClock 10 # reset_events",
      THEN conjunct2, THEN conjunct2, THEN conjunct2, THEN conjunct1]
  note E = simd_mismatch_aborts[where k = 0 and gk = "\<lambda>n. 0"
      and trk = "StartClock 10 # reset_events",
      THEN conjunct2, THEN conjunct2, THEN conjunct2, THEN conjunct2]
  have 1: "simd_check 7 [1, 2, 1, 2] [0, 1, 0, 1] (- 3) 1 2 0
     = Inl (AssertionError ''Output should be valid for SIMD_DOT'')"
    by (rule A[THEN mp]) simp
  have 2: "\<exists>msg. simd_check 7 [1, 2, 1, 2] [0, 1, 0, 1] (- 3) 1 2 1 = Inl (AssertionError msg)
         \<and> sublist (str_int (int 7)) msg
         \<and> sublist (str_list [1, 2, 1, 2]) msg \<and> sublist (str_list [0, 1, 0, 1]) msg
         \<and> sublist (str_int (- 3)) msg
         \<and> sublist (str_int 1) msg \<and> sublist (str_int 2) msg"
    by (rule B[THEN mp]) simp
  have 3: "simd_check 7 [1, 2, 1, 2] [0, 1, 0, 1] (- 3) 1 1 1 = Inr ()"
    by (rule C[THEN mp]) simp
  have it: "simd_iteration (\<lambda>tr p. 0) 0 (\<lambda>n. 0) (StartClock 10 # reset_events) =
       (StartClock 10 # reset_events
          @ [Write rs1_i 2155905152, Write rs2_i 2155905152, Write rd_i (- 2147483648),
             Write opcode_i 5, RisingEdge, RisingEdge, Sample result_o, Sample valid_o],
        case simd_check 0 [- 128, - 128, - 128, - 128] [- 128, - 128, - 128, - 128]
               (- 2147483648) (- 2147418112) 0 0 of
          Inl e \<Rightarrow> Inl e
        | Inr u \<Rightarrow> Inr (\<lambda>n. 0))"
    using D[THEN mp, OF conjI[OF gen_inputs_zero conjI[OF pack_operands_zero simd_expected_zero]]]
    by simp
  have 4: "simd_iteration (\<lambda>tr p. 0) 0 (\<lambda>n. 0) (StartClock 10 # reset_events) =
       (StartClock 10 # reset_events
          @ [Write rs1_i 2155905152, Write rs2_i 2155905152, Write rd_i (- 2147483648),
             Write opcode_i 5, RisingEdge, RisingEdge, Sample result_o, Sample valid_o],
        Inl (AssertionError ''Output should be valid for SIMD_DOT''))"
    unfolding it by (simp add: simd_check_def valid_msg_def)
  have 5: "test_simd_dot (\<lambda>tr p. 0) (\<lambda>n. 0) [] =
       (StartClock 10 # reset_events
          @ [Write rs1_i 2155905152, Write rs2_i 2155905152, Write rd_i (- 2147483648),
             Write opcode_i 5, RisingEdge, RisingEdge, Sample result_o, Sample valid_o],
        Inl (AssertionError ''Output should be valid for SIMD_DOT''))"
    by (rule E[THEN mp]) (simp add: 4)
  show ?thesis using 1 2 3 4 5 by blast
qed

subsection \<open>Sequencing\<close>

lemma simd_iteration_cases:
  obtains rs1 rs2 acc g' v1 v2 r where
    "gen_inputs g = ((rs1, rs2, acc), g')" "pack_operands rs1 rs2 = Inr (v1, v2)"
    "simd_iteration d i g tr = (tr @ simd_vector_events v1 v2 acc, r)"
    "r = Inr g' \<or> (\<exists>e. r = Inl e)"
proof -
  obtain rs1 rs2 acc g' where gi: "gen_inputs g = ((rs1, rs2, acc), g')"
    by (metis prod_cases3 surj_pair)
  note p = gen_inputs_props[OF gi]
  obtain v1 v2 where pk: "pack_operands rs1 rs2 = Inr (v1, v2)"
    using pack_operands_Inr[OF p(1,2)] by blast
  obtain ex where se: "simd_expected rs1 rs2 acc = Inr ex"
    using simd_expected_Inr[OF p(1,2)] by blast
  note e = simd_iteration_eq[OF gi pk se, of d i tr]
  define r where "r = snd (simd_iteration d i g tr)"
  have 1: "simd_iteration d i g tr = (tr @ simd_vector_events v1 v2 acc, r)"
    unfolding r_def e by simp
  have 2: "r = Inr g' \<or> (\<exists>e. r = Inl e)"
    unfolding r_def e by (simp split: sum.splits)
  show ?thesis using that[OF gi pk 1 2] .
qed

lemma simd_loop_stimulus:
  "\<exists>n. n \<le> length xs \<and> (xs \<noteq> [] \<longrightarrow> 1 \<le> n)
       \<and> fst (simd_loop d xs g tr)
           = tr @ concat (map (\<lambda>(a, b, c). simd_vector_events a b c) (stimulus n g))
       \<and> (\<forall>g'. snd (simd_loop d xs g tr) = Inr g' \<longrightarrow> n = length xs)"
proof (induction xs arbitrary: g tr)
  case Nil
  show ?case by (rule exI[of _ 0]) simp
next
  case (Cons i rest)
  obtain rs1 rs2 acc g1 v1 v2 r where
    gi: "gen_inputs g = ((rs1, rs2, acc), g1)" and pk: "pack_operands rs1 rs2 = Inr (v1, v2)"
    and it: "simd_iteration d i g tr = (tr @ simd_vector_events v1 v2 acc, r)"
    and r: "r = Inr g1 \<or> (\<exists>e. r = Inl e)"
    by (rule simd_iteration_cases)
  have s: "stimulus (Suc n) g = (v1, v2, acc) # stimulus n g1" for n
    by (simp add: gi pk)
  from r show ?case
  proof
    assume "\<exists>e. r = Inl e"
    then obtain e where e: "r = Inl e" by blast
    show ?thesis
      by (rule exI[of _ "Suc 0"]) (simp add: it e gi pk)
  next
    assume rr: "r = Inr g1"
    obtain n where n: "n \<le> length rest"
        "fst (simd_loop d rest g1 (tr @ simd_vector_events v1 v2 acc))
           = (tr @ simd_vector_events v1 v2 acc)
               @ concat (map (\<lambda>(a, b, c). simd_vector_events a b c) (stimulus n g1))"
        "\<forall>g'. snd (simd_loop d rest g1 (tr @ simd_vector_events v1 v2 acc)) = Inr g'
              \<longrightarrow> n = length rest"
      using Cons[of g1 "tr @ simd_vector_events v1 v2 acc"] by blast
    show ?thesis
      by (rule exI[of _ "Suc n"]) (use n in \<open>simp add: it rr gi pk\<close>)
  qed
qed

lemma length_stimulus: "length (stimulus n g) = n"
proof (induction n arbitrary: g)
  case 0
  show ?case by simp
next
  case (Suc n)
  obtain rs1 rs2 acc g1 where gi: "gen_inputs g = ((rs1, rs2, acc), g1)"
    by (metis prod_cases3 surj_pair)
  note p = gen_inputs_props[OF gi]
  obtain v1 v2 where pk: "pack_operands rs1 rs2 = Inr (v1, v2)"
    using pack_operands_Inr[OF p(1,2)] by blast
  show ?case by (simp add: gi pk Suc)
qed

text \<open>
  C4: every iteration of the loop of test\_simd\_dot, whatever the design answers,
  appends exactly one block of events to the trace: the writes of the two packed
  operands, the accumulator and the opcode, then exactly two awaited rising edges,
  then the sampling of result\_o and valid\_o. The trace of the whole test is the reset
  sequence followed by the blocks of the first n iterations, one after the other,
  with n between 1 and 1000 and n = 1000 when the test passes: no vector is driven
  before the previous one has been sampled. The MAC8 test drives its one vector in
  the same way, with two awaited edges before the sample.
\<close>

theorem sequencer_two_edges_no_overlap:
  "(case gen_inputs g of
      ((rs1_bytes, rs2_bytes, acc_val), g') \<Rightarrow>
        (case pack_operands rs1_bytes rs2_bytes of
           Inl e \<Rightarrow> False
         | Inr (rs1_val, rs2_val) \<Rightarrow>
             fst (simd_iteration d i g tr) =
               tr @ [Write rs1_i rs1_val, Write rs2_i rs2_val, Write rd_i acc_val,
                     Write opcode_i 5, RisingEdge, RisingEdge, Sample result_o, Sample valid_o]))
   \<and> (\<exists>n. 1 \<le> n \<and> n \<le> 1000 \<and> length (stimulus n g) = n
          \<and> (snd (test_simd_dot d g tr0) = Inr () \<longrightarrow> n = 1000)
          \<and> fst (test_simd_dot d g tr0) =
              tr0 @ StartClock 10 # reset_events
                @ concat (map (\<lambda>(rs1_val, rs2_val, acc_val).
                    [Write rs1_i rs1_val, Write rs2_i rs2_val, Write rd_i acc_val,
                     Write opcode_i 5, RisingEdge, RisingEdge, Sample result_o, Sample valid_o])
                    (stimulus n g))
                @ (if snd (test_simd_dot d g tr0) = Inr ()
                   then [LogInfo ''SIMD_DOT verification passed (1000 vectors)''] else []))
   \<and> fst (test_mac8_legacy d tr0) =
      tr0 @ StartClock 10 # reset_events
        @ [Write rs1_i 10, Write rs2_i 251, Write rd_i 20, Write opcode_i 1,
           RisingEdge, RisingEdge, Sample result_o]"
proof (intro conjI)
  obtain rs1 rs2 acc g1 v1 v2 r where
    gi: "gen_inputs g = ((rs1, rs2, acc), g1)" and pk: "pack_operands rs1 rs2 = Inr (v1, v2)"
    and it: "simd_iteration d i g tr = (tr @ simd_vector_events v1 v2 acc, r)"
    by (rule simd_iteration_cases)
  show "case gen_inputs g of
      ((rs1_bytes, rs2_bytes, acc_val), g') \<Rightarrow>
        (case pack_operands rs1_bytes rs2_bytes of
           Inl e \<Rightarrow> False
         | Inr (rs1_val, rs2_val) \<Rightarrow>
             fst (simd_iteration d i g tr) =
               tr @ [Write rs1_i rs1_val, Write rs2_i rs2_val, Write rd_i acc_val,
                     Write opcode_i 5, RisingEdge, RisingEdge, Sample result_o, Sample valid_o])"
    by (simp add: gi pk it simd_vector_events_def)
next
  define tr where "tr = tr0 @ StartClock 10 # reset_events"
  obtain n where n: "n \<le> length [0..<1000]" "[0..<1000] \<noteq> [] \<longrightarrow> 1 \<le> n"
      "fst (simd_loop d [0..<1000] g tr)
           = tr @ concat (map (\<lambda>(a, b, c). simd_vector_events a b c) (stimulus n g))"
      "\<forall>g'. snd (simd_loop d [0..<1000] g tr) = Inr g' \<longrightarrow> n = length [0..<1000]"
    using simd_loop_stimulus[of "[0..<1000]" d g tr] by blast
  obtain tr' r where l: "simd_loop d [0..<1000] g tr = (tr', r)"
    by (cases "simd_loop d [0..<1000] g tr")
  have ne: "[0..<1000] \<noteq> []" by simp
  have a: "1 \<le> n" "n \<le> 1000" using n(1,2) ne by simp_all
  have b: "snd (test_simd_dot d g tr0) = Inr () \<longrightarrow> n = 1000"
    using n(4) l unfolding test_simd_dot_eq tr_def[symmetric] by (cases r) simp_all
  have c: "fst (test_simd_dot d g tr0) =
              tr0 @ StartClock 10 # reset_events
                @ concat (map (\<lambda>(rs1_val, rs2_val, acc_val).
                    [Write rs1_i rs1_val, Write rs2_i rs2_val, Write rd_i acc_val,
                     Write opcode_i 5, RisingEdge, RisingEdge, Sample result_o, Sample valid_o])
                    (stimulus n g))
                @ (if snd (test_simd_dot d g tr0) = Inr ()
                   then [LogInfo ''SIMD_DOT verification passed (1000 vectors)''] else [])"
    using n(3) l unfolding test_simd_dot_eq tr_def[symmetric] simd_vector_events_def
    by (cases r) (simp_all add: tr_def)
  show "\<exists>n. 1 \<le> n \<and> n \<le> 1000 \<and> length (stimulus n g) = n
          \<and> (snd (test_simd_dot d g tr0) = Inr () \<longrightarrow> n = 1000)
          \<and> fst (test_simd_dot d g tr0) =
              tr0 @ StartClock 10 # reset_events
                @ concat (map (\<lambda>(rs1_val, rs2_val, acc_val).
                    [Write rs1_i rs1_val, Write rs2_i rs2_val, Write rd_i acc_val,
                     Write opcode_i 5, RisingEdge, RisingEdge, Sample result_o, Sample valid_o])
                    (stimulus n g))
                @ (if snd (test_simd_dot d g tr0) = Inr ()
                   then [LogInfo ''SIMD_DOT verification passed (1000 vectors)''] else [])"
    using a b c length_stimulus[of n g] by blast
next
  show "fst (test_mac8_legacy d tr0) =
      tr0 @ StartClock 10 # reset_events
        @ [Write rs1_i 10, Write rs2_i 251, Write rd_i 20, Write opcode_i 1,
           RisingEdge, RisingEdge, Sample result_o]"
    by (simp add: test_mac8_legacy_eq Let_def mac8_events_def)
qed

lemma stimulus_zero: "stimulus n (\<lambda>n. 0) = replicate n (2155905152, 2155905152, - 2147483648)"
  by (induction n) (simp_all add: gen_inputs_zero pack_operands_zero)

theorem sequencer_two_edges_no_overlap_witness:
  "fst (simd_iteration (\<lambda>tr p. case p of result_o \<Rightarrow> - 2147418112 | valid_o \<Rightarrow> 1) 0 (\<lambda>n. 0) []) =
     [Write rs1_i 2155905152, Write rs2_i 2155905152, Write rd_i (- 2147483648),
      Write opcode_i 5, RisingEdge, RisingEdge, Sample result_o, Sample valid_o]
   \<and> fst (test_simd_dot (\<lambda>tr p. case p of result_o \<Rightarrow> - 2147418112 | valid_o \<Rightarrow> 1) (\<lambda>n. 0) []) =
       StartClock 10 # reset_events
         @ concat (replicate 1000
             [Write rs1_i 2155905152, Write rs2_i 2155905152, Write rd_i (- 2147483648),
              Write opcode_i 5, RisingEdge, RisingEdge, Sample result_o, Sample valid_o])
         @ [LogInfo ''SIMD_DOT verification passed (1000 vectors)'']"
proof -
  note t = sequencer_two_edges_no_overlap[where g = "\<lambda>n. 0" and tr0 = "[]" and tr = "[]" and i = 0
      and d = "\<lambda>tr p. case p of result_o \<Rightarrow> - 2147418112 | valid_o \<Rightarrow> 1"]
  have 1: "fst (simd_iteration (\<lambda>tr p. case p of result_o \<Rightarrow> - 2147418112 | valid_o \<Rightarrow> 1) 0 (\<lambda>n. 0) []) =
     [Write rs1_i 2155905152, Write rs2_i 2155905152, Write rd_i (- 2147483648),
      Write opcode_i 5, RisingEdge, RisingEdge, Sample result_o, Sample valid_o]"
    using t[THEN conjunct1] by (simp add: gen_inputs_zero pack_operands_zero)
  obtain n where n: "snd (test_simd_dot (\<lambda>tr p. case p of result_o \<Rightarrow> - 2147418112 | valid_o \<Rightarrow> 1)
                 (\<lambda>n. 0) []) = Inr () \<longrightarrow> n = 1000"
     "fst (test_simd_dot (\<lambda>tr p. case p of result_o \<Rightarrow> - 2147418112 | valid_o \<Rightarrow> 1) (\<lambda>n. 0) []) =
              [] @ StartClock 10 # reset_events
                @ concat (map (\<lambda>(rs1_val, rs2_val, acc_val).
                    [Write rs1_i rs1_val, Write rs2_i rs2_val, Write rd_i acc_val,
                     Write opcode_i 5, RisingEdge, RisingEdge, Sample result_o, Sample valid_o])
                    (stimulus n (\<lambda>n. 0)))
                @ (if snd (test_simd_dot (\<lambda>tr p. case p of result_o \<Rightarrow> - 2147418112 | valid_o \<Rightarrow> 1)
                         (\<lambda>n. 0) []) = Inr ()
                   then [LogInfo ''SIMD_DOT verification passed (1000 vectors)''] else [])"
    using t[THEN conjunct2, THEN conjunct1] by blast
  have n1000: "n = 1000" using n(1) test_simd_dot_passes by blast
  have 2: "fst (test_simd_dot (\<lambda>tr p. case p of result_o \<Rightarrow> - 2147418112 | valid_o \<Rightarrow> 1) (\<lambda>n. 0) []) =
       StartClock 10 # reset_events
         @ concat (replicate 1000
             [Write rs1_i 2155905152, Write rs2_i 2155905152, Write rd_i (- 2147483648),
              Write opcode_i 5, RisingEdge, RisingEdge, Sample result_o, Sample valid_o])
         @ [LogInfo ''SIMD_DOT verification passed (1000 vectors)'']"
    using n(2) unfolding n1000 stimulus_zero
    by (simp add: test_simd_dot_passes map_replicate)
  show ?thesis using 1 2 by blast
qed

subsection \<open>The stimulus\<close>

lemma randint_onto:
  assumes "a \<le> x" "x \<le> b"
  shows "randint a b (\<lambda>n. if n = 0 then nat (x - a) else h (n - 1)) = (x, h)"
proof -
  have "nat (x - a) < nat (b - a + 1)" using assms by linarith
  then have "nat (x - a) mod nat (b - a + 1) = nat (x - a)" by simp
  then show ?thesis using assms by (simp add: randint_def)
qed

lemma gen_inputs_onto:
  assumes "length rs1_bytes = 4" "length rs2_bytes = 4"
    and "\<forall>b\<in>set rs1_bytes. - 128 \<le> b \<and> b \<le> 127"
    and "\<forall>b\<in>set rs2_bytes. - 128 \<le> b \<and> b \<le> 127"
    and "- 2147483648 \<le> acc_val" "acc_val \<le> 2147483647"
  shows "\<exists>g. fst (gen_inputs g) = (rs1_bytes, rs2_bytes, acc_val)"
proof -
  obtain a b c d where r1: "rs1_bytes = [a, b, c, d]" using assms(1) length4E by blast
  obtain e f k h where r2: "rs2_bytes = [e, f, k, h]" using assms(2) length4E by blast
  have ra: "- 128 \<le> a" "a \<le> 127" "- 128 \<le> b" "b \<le> 127" "- 128 \<le> c" "c \<le> 127"
    "- 128 \<le> d" "d \<le> 127" using assms(3) r1 by simp_all
  have rb: "- 128 \<le> e" "e \<le> 127" "- 128 \<le> f" "f \<le> 127" "- 128 \<le> k" "k \<le> 127"
    "- 128 \<le> h" "h \<le> 127" using assms(4) r2 by simp_all
  define cons where "cons = (\<lambda>(lo::int) (x::int) (t::rng) (n::nat). if n = 0 then nat (x - lo) else t (n - 1))"
  have step: "randint lo hi (cons lo x t) = (x, t)" if "lo \<le> x" "x \<le> hi" for lo hi x t
    using randint_onto[OF that, of t] by (simp add: cons_def)
  define g9 where "g9 = cons (- 2147483648) acc_val (\<lambda>n. 0)"
  define g5 where "g5 = cons (- 128) e (cons (- 128) f (cons (- 128) k (cons (- 128) h g9)))"
  define g1 where "g1 = cons (- 128) a (cons (- 128) b (cons (- 128) c (cons (- 128) d g5)))"
  have 1: "randint_list 4 (- 128) 127 g1 = ([a, b, c, d], g5)"
    using ra by (simp add: randint_list4 g1_def step)
  have 2: "randint_list 4 (- 128) 127 g5 = ([e, f, k, h], g9)"
    using rb by (simp add: randint_list4 g5_def step)
  have 3: "randint (- 2147483648) 2147483647 g9 = (acc_val, \<lambda>n. 0)"
    using assms(5,6) by (simp add: g9_def step)
  have "fst (gen_inputs g1) = (rs1_bytes, rs2_bytes, acc_val)"
    by (simp add: gen_inputs_def 1 2 3 r1 r2)
  then show ?thesis by blast
qed

lemma test_simd_dot_valid_low:
  "test_simd_dot (\<lambda>tr p. 0) (\<lambda>n. 0) [] =
     (StartClock 10 # reset_events @ simd_vector_events 2155905152 2155905152 (- 2147483648),
      Inl (AssertionError valid_msg))"
proof -
  have it: "simd_iteration (\<lambda>tr p. 0) 0 (\<lambda>n. 0) ([] @ StartClock 10 # reset_events)
       = (([] @ StartClock 10 # reset_events) @ simd_vector_events 2155905152 2155905152 (- 2147483648),
          Inl (AssertionError valid_msg))"
    by (simp add: simd_iteration_zero simd_check_def)
  have "simd_loop (\<lambda>tr p. 0) [0..<1000] (\<lambda>n. 0) ([] @ StartClock 10 # reset_events)
       = (([] @ StartClock 10 # reset_events) @ simd_vector_events 2155905152 2155905152 (- 2147483648),
          Inl (AssertionError valid_msg))"
    by (rule simd_loop_fails_at[where k = 0 and tr = "[] @ StartClock 10 # reset_events", OF _ _ it])
       simp_all
  then show ?thesis unfolding test_simd_dot_eq by simp
qed

lemma count_one_block:
  "length (filter (\<lambda>e. e = Write opcode_i 5) (simd_vector_events a b c)) = 1"
  by (simp add: simd_vector_events_def)

lemma simd_loop_pass_count:
  assumes "simd_loop d xs g tr = (tr', Inr g')"
  shows "length (filter (\<lambda>e. e = Write opcode_i 5) (drop (length tr) tr')) = length xs"
proof -
  obtain n where n: "fst (simd_loop d xs g tr)
           = tr @ concat (map (\<lambda>(a, b, c). simd_vector_events a b c) (stimulus n g))"
       "\<forall>g'. snd (simd_loop d xs g tr) = Inr g' \<longrightarrow> n = length xs"
    using simd_loop_stimulus[of xs d g tr] by blast
  have "n = length xs" using n(2) assms by simp
  then show ?thesis using n(1) assms by (simp add: count_block length_stimulus)
qed

text \<open>
  C6, as stated, fails: the loop does not always run 1000 iterations. With a design
  whose valid\_o stays 0 the first assertion of iteration 0 fails and the test has
  driven one vector.
\<close>

theorem randomized_stimulus_counterexample:
  "snd (test_simd_dot (\<lambda>tr p. 0) (\<lambda>n. 0) [])
     = Inl (AssertionError ''Output should be valid for SIMD_DOT'')
   \<and> length (filter (\<lambda>e. e = Write opcode_i OP_SIMD_DOT)
        (fst (test_simd_dot (\<lambda>tr p. 0) (\<lambda>n. 0) []))) = 1"
  by (simp add: test_simd_dot_valid_low valid_msg_def OP_SIMD_DOT_def count_reset count_one_block)

text \<open>
  C6, amended: the draws of an iteration are four bytes in [-128,127] for each operand
  and an accumulator in [-2147483648, 2147483647], packed with lane k at bits 8k to
  8k+7 (lane 0 least significant), and every such pair of byte lists and accumulator
  is a possible draw. The loop over range(1000) drives at least one and at most 1000
  vectors: exactly 1000 in a run in which no assertion fails, and exactly k + 1 when
  iterations 0 to k - 1 pass and iteration k raises, the test then ending with that
  exception.
\<close>

theorem randomized_stimulus:
  "(case gen_inputs g of
      ((rs1_bytes, rs2_bytes, acc_val), g') \<Rightarrow>
        length rs1_bytes = 4 \<and> length rs2_bytes = 4
        \<and> (\<forall>b\<in>set rs1_bytes. - 128 \<le> b \<and> b \<le> 127)
        \<and> (\<forall>b\<in>set rs2_bytes. - 128 \<le> b \<and> b \<le> 127)
        \<and> - 2147483648 \<le> acc_val \<and> acc_val \<le> 2147483647
        \<and> pack_operands rs1_bytes rs2_bytes =
            Inr (\<Sum>k<4. (rs1_bytes ! k mod 256) * 256 ^ k,
                 \<Sum>k<4. (rs2_bytes ! k mod 256) * 256 ^ k))
   \<and> (length xs = 4 \<and> length ys = 4
        \<and> (\<forall>b\<in>set xs. - 128 \<le> b \<and> b \<le> 127) \<and> (\<forall>b\<in>set ys. - 128 \<le> b \<and> b \<le> 127)
        \<and> - 2147483648 \<le> a \<and> a \<le> 2147483647 \<longrightarrow>
        (\<exists>h. fst (gen_inputs h) = (xs, ys, a)))
   \<and> 1 \<le> length (filter (\<lambda>e. e = Write opcode_i OP_SIMD_DOT)
               (drop (length pre) (fst (test_simd_dot d g pre))))
   \<and> length (filter (\<lambda>e. e = Write opcode_i OP_SIMD_DOT)
               (drop (length pre) (fst (test_simd_dot d g pre)))) \<le> 1000
   \<and> (snd (test_simd_dot d g pre) = Inr () \<longrightarrow>
        length (filter (\<lambda>e. e = Write opcode_i OP_SIMD_DOT)
               (drop (length pre) (fst (test_simd_dot d g pre)))) = 1000)
   \<and> (k < 1000
        \<and> simd_loop d [0..<k] g (pre @ StartClock 10 # reset_events) = (trk, Inr gk)
        \<and> snd (simd_iteration d k gk trk) = Inl e \<longrightarrow>
        snd (test_simd_dot d g pre) = Inl e
        \<and> length (filter (\<lambda>e. e = Write opcode_i OP_SIMD_DOT)
               (drop (length pre) (fst (test_simd_dot d g pre)))) = Suc k)"
proof (intro conjI)
  obtain rs1 rs2 acc g' where gi: "gen_inputs g = ((rs1, rs2, acc), g')"
    by (metis prod_cases3 surj_pair)
  note p = gen_inputs_props[OF gi]
  show "case gen_inputs g of
      ((rs1_bytes, rs2_bytes, acc_val), g') \<Rightarrow>
        length rs1_bytes = 4 \<and> length rs2_bytes = 4
        \<and> (\<forall>b\<in>set rs1_bytes. - 128 \<le> b \<and> b \<le> 127)
        \<and> (\<forall>b\<in>set rs2_bytes. - 128 \<le> b \<and> b \<le> 127)
        \<and> - 2147483648 \<le> acc_val \<and> acc_val \<le> 2147483647
        \<and> pack_operands rs1_bytes rs2_bytes =
            Inr (\<Sum>k<4. (rs1_bytes ! k mod 256) * 256 ^ k,
                 \<Sum>k<4. (rs2_bytes ! k mod 256) * 256 ^ k)"
    using p pack_operands_sum[OF p(1,2)] by (simp add: gi)
next
  show "length xs = 4 \<and> length ys = 4
        \<and> (\<forall>b\<in>set xs. - 128 \<le> b \<and> b \<le> 127) \<and> (\<forall>b\<in>set ys. - 128 \<le> b \<and> b \<le> 127)
        \<and> - 2147483648 \<le> a \<and> a \<le> 2147483647 \<longrightarrow>
        (\<exists>h. fst (gen_inputs h) = (xs, ys, a))"
    using gen_inputs_onto[of xs ys a] by blast
next
  define tr where "tr = pre @ StartClock 10 # reset_events"
  define cnt where "cnt = length (filter (\<lambda>e. e = Write opcode_i OP_SIMD_DOT)
               (drop (length pre) (fst (test_simd_dot d g pre))))"
  obtain n where n: "n \<le> length [0..<1000]" "[0..<1000] \<noteq> [] \<longrightarrow> 1 \<le> n"
      "fst (simd_loop d [0..<1000] g tr)
           = tr @ concat (map (\<lambda>(a, b, c). simd_vector_events a b c) (stimulus n g))"
      "\<forall>g'. snd (simd_loop d [0..<1000] g tr) = Inr g' \<longrightarrow> n = length [0..<1000]"
    using simd_loop_stimulus[of "[0..<1000]" d g tr] by blast
  obtain tr' r where l: "simd_loop d [0..<1000] g tr = (tr', r)"
    by (cases "simd_loop d [0..<1000] g tr")
  have c: "cnt = n"
    using n(3) l unfolding cnt_def test_simd_dot_eq tr_def[symmetric]
    by (cases r)
       (simp_all add: tr_def count_block count_reset OP_SIMD_DOT_def length_stimulus)
  have ne: "[0..<1000] \<noteq> []" by simp
  show "1 \<le> cnt" using c n(2) ne by simp
  show "cnt \<le> 1000" using c n(1) by simp
  show "snd (test_simd_dot d g pre) = Inr () \<longrightarrow> cnt = 1000"
  proof
    assume a: "snd (test_simd_dot d g pre) = Inr ()"
    have "\<exists>g'. r = Inr g'"
      using a l unfolding test_simd_dot_eq tr_def[symmetric] by (cases r) simp_all
    then have "n = 1000" using n(4) l by auto
    then show "cnt = 1000" using c by simp
  qed
  show "k < 1000 \<and> simd_loop d [0..<k] g tr = (trk, Inr gk)
        \<and> snd (simd_iteration d k gk trk) = Inl e \<longrightarrow>
        snd (test_simd_dot d g pre) = Inl e \<and> cnt = Suc k"
  proof
    assume h: "k < 1000 \<and> simd_loop d [0..<k] g tr = (trk, Inr gk)
        \<and> snd (simd_iteration d k gk trk) = Inl e"
    obtain rs1 rs2 acc g1 v1 v2 r1 where
      it: "simd_iteration d k gk trk = (trk @ simd_vector_events v1 v2 acc, r1)"
      by (rule simd_iteration_cases)
    have r1: "r1 = Inl e" using h it by simp
    have t: "simd_loop d [0..<1000] g tr = (trk @ simd_vector_events v1 v2 acc, Inl e)"
      using simd_loop_fails_at[of k 1000 d g tr trk gk "trk @ simd_vector_events v1 v2 acc" e]
        h it r1 by simp
    have ck: "length (filter (\<lambda>e. e = Write opcode_i 5) (drop (length tr) trk)) = k"
      using simd_loop_pass_count[of d "[0..<k]" g tr trk gk] h by simp
    obtain rest where rest: "trk = tr @ rest"
      using simd_loop_stimulus[of "[0..<k]" d g tr] h by auto
    have "cnt = Suc k"
      using ck unfolding cnt_def test_simd_dot_eq tr_def[symmetric] t rest
      by (simp add: tr_def count_reset count_one_block OP_SIMD_DOT_def)
    then show "snd (test_simd_dot d g pre) = Inl e \<and> cnt = Suc k"
      unfolding test_simd_dot_eq tr_def[symmetric] t by simp
  qed
qed

theorem randomized_stimulus_witness:
  "(\<exists>h. fst (gen_inputs h) = ([1, - 2, 127, - 128], [0, - 1, 5, 100], 7))
   \<and> snd (test_simd_dot (\<lambda>tr p. case p of result_o \<Rightarrow> - 2147418112 | valid_o \<Rightarrow> 1) (\<lambda>n. 0) [])
       = Inr ()
   \<and> length (filter (\<lambda>e. e = Write opcode_i OP_SIMD_DOT)
        (fst (test_simd_dot (\<lambda>tr p. case p of result_o \<Rightarrow> - 2147418112 | valid_o \<Rightarrow> 1)
               (\<lambda>n. 0) []))) = 1000
   \<and> snd (test_simd_dot (\<lambda>tr p. 0) (\<lambda>n. 0) []) = Inl (AssertionError valid_msg)
   \<and> length (filter (\<lambda>e. e = Write opcode_i OP_SIMD_DOT)
        (fst (test_simd_dot (\<lambda>tr p. 0) (\<lambda>n. 0) []))) = Suc 0"
proof -
  note A = randomized_stimulus[where xs = "[1, - 2, 127, - 128]" and ys = "[0, - 1, 5, 100]"
      and a = 7, THEN conjunct2, THEN conjunct1]
  note B = randomized_stimulus[where g = "\<lambda>n. 0" and pre = "[]"
      and d = "\<lambda>tr p. case p of result_o \<Rightarrow> - 2147418112 | valid_o \<Rightarrow> 1",
      THEN conjunct2, THEN conjunct2, THEN conjunct2, THEN conjunct2, THEN conjunct1]
  note C = randomized_stimulus[where g = "\<lambda>n. 0" and pre = "[]" and d = "\<lambda>tr p. 0"
      and k = 0 and gk = "\<lambda>n. 0" and trk = "StartClock 10 # reset_events"
      and e = "AssertionError valid_msg",
      THEN conjunct2, THEN conjunct2, THEN conjunct2, THEN conjunct2, THEN conjunct2]
  have 1: "\<exists>h. fst (gen_inputs h) = ([1, - 2, 127, - 128], [0, - 1, 5, 100], 7)"
    by (rule A[THEN mp]) simp
  have 2: "length (filter (\<lambda>e. e = Write opcode_i OP_SIMD_DOT)
        (fst (test_simd_dot (\<lambda>tr p. case p of result_o \<Rightarrow> - 2147418112 | valid_o \<Rightarrow> 1)
               (\<lambda>n. 0) []))) = 1000"
    using B[THEN mp, OF test_simd_dot_passes] by simp
  have 3: "snd (test_simd_dot (\<lambda>tr p. 0) (\<lambda>n. 0) []) = Inl (AssertionError valid_msg)
    \<and> length (filter (\<lambda>e. e = Write opcode_i OP_SIMD_DOT)
        (drop (length ([] :: event list)) (fst (test_simd_dot (\<lambda>tr p. 0) (\<lambda>n. 0) [])))) = Suc 0"
    by (rule C[THEN mp]) (simp add: simd_iteration_zero simd_check_def)
  show ?thesis using 1 2 3 test_simd_dot_passes by simp
qed

section \<open>Properties of the file list extractor\<close>

lemma opened_append: "opened (a @ b) = opened a @ opened b"
  by (induction a rule: opened.induct) simp_all

lemma grows_refl: "grows st st"
  by (simp add: grows_def)

lemma grows_trans:
  assumes "grows a b" and "grows b c"
  shows "grows a c"
proof -
  obtain n1 where 1: "io_log b = io_log a @ n1" "distinct (opened n1)"
      "set (opened n1) \<inter> processed_flists a = {}" "set (opened n1) \<subseteq> processed_flists b"
    using assms(1) unfolding grows_def by blast
  obtain n2 where 2: "io_log c = io_log b @ n2" "distinct (opened n2)"
      "set (opened n2) \<inter> processed_flists b = {}" "set (opened n2) \<subseteq> processed_flists c"
    using assms(2) unfolding grows_def by blast
  have s: "processed_flists a \<subseteq> processed_flists b" "processed_flists b \<subseteq> processed_flists c"
    using assms unfolding grows_def by blast+
  have "io_log c = io_log a @ (n1 @ n2)" using 1(1) 2(1) by simp
  moreover have "distinct (opened (n1 @ n2))"
    using 1(2,4) 2(2,3) by (auto simp: opened_append)
  moreover have "set (opened (n1 @ n2)) \<inter> processed_flists a = {}"
    using 1(3) 2(3) s by (auto simp: opened_append)
  moreover have "set (opened (n1 @ n2)) \<subseteq> processed_flists c"
    using 1(4) 2(4) s by (auto simp: opened_append)
  ultimately show ?thesis
    unfolding grows_def using s by blast
qed

lemma process_lines_grows:
  assumes "\<And>p s r s'. recurse p s = Returned (r, s') \<Longrightarrow> grows s s'"
  shows "process_lines env repo recurse ls acc st = Returned (r, st') \<Longrightarrow> grows st st'"
proof (induction ls arbitrary: acc st)
  case Nil
  then show ?case by (cases acc) (simp add: grows_refl)
next
  case (Cons raw rest)
  obtain files include_dirs where acc: "acc = (files, include_dirs)" by (cases acc)
  show ?case
  proof (cases "recurse (normpath env (if isabs env (strip (drop 2 (strip raw))) then strip (drop 2 (strip raw))
                   else join_path env repo (strip (drop 2 (strip raw))))) st")
    case OutOfFuel
    then show ?thesis
      using Cons.prems Cons.IH unfolding acc
      by (simp add: Let_def split: if_splits)
  next
    case (Raised e)
    then show ?thesis
      using Cons.prems Cons.IH unfolding acc
      by (simp add: Let_def split: if_splits)
  next
    case (Returned x)
    obtain sf si s1 where x: "x = ((sf, si), s1)" by (metis prod.collapse)
    have g: "grows st s1" using assms Returned x by blast
    show ?thesis
      using Cons.prems Cons.IH Returned g grows_trans unfolding acc x
      by (simp add: Let_def split: if_splits)
  qed
qed

lemma process_flist_file_grows:
  "process_flist_file depth env repo cfg path st = Returned (r, st')
   \<Longrightarrow> grows st st' \<and> normpath env (abspath env path) \<in> processed_flists st'"
proof (induction depth arbitrary: path st r st')
  case 0
  then show ?case by simp
next
  case (Suc depth)
  define p where "p = normpath env (abspath env path)"
  show ?case
  proof (cases "p \<in> processed_flists st")
    case True
    then show ?thesis using Suc.prems by (simp add: p_def[symmetric] Let_def grows_refl)
  next
    case False
    define st1 where "st1 = st\<lparr>processed_flists := insert p (processed_flists st)\<rparr>"
    show ?thesis
    proof (cases "map_of (fs env) p")
      case None
      then have e: "st' = st1\<lparr>io_log := io_log st1 @ [Warn (''Warning: Flist not found at '' @ p)]\<rparr>"
        using Suc.prems False by (simp add: p_def[symmetric] Let_def st1_def)
      have "grows st st'"
        unfolding grows_def e st1_def by auto
      then show ?thesis by (simp add: e st1_def p_def)
    next
      case (Some n)
      show ?thesis
      proof (cases n)
        case Directory
        then show ?thesis using Suc.prems False Some by (simp add: p_def[symmetric] Let_def)
      next
        case (RegularFile body)
        define st2 where "st2 = st1\<lparr>io_log := io_log st1 @ [Open p]\<rparr>"
        obtain ls where pl: "process_lines env repo (process_flist_file depth env repo cfg) ls ([], []) st2
              = Returned (r, st')"
          using Suc.prems False Some RegularFile
          by (simp add: p_def[symmetric] Let_def st1_def st2_def)
        have g2: "grows st2 st'"
          using process_lines_grows[OF _ pl] Suc.IH by blast
        obtain n2 where n2: "io_log st' = io_log st2 @ n2" "distinct (opened n2)"
            "set (opened n2) \<inter> processed_flists st2 = {}" "set (opened n2) \<subseteq> processed_flists st'"
            and sub: "processed_flists st2 \<subseteq> processed_flists st'"
          using g2 unfolding grows_def by blast
        have p2: "processed_flists st2 = insert p (processed_flists st)"
          by (simp add: st2_def st1_def)
        have l2: "io_log st2 = io_log st @ [Open p]"
          by (simp add: st2_def st1_def)
        have "io_log st' = io_log st @ (Open p # n2)" using n2(1) l2 by simp
        moreover have "distinct (opened (Open p # n2))" using n2(2,3) p2 by auto
        moreover have "set (opened (Open p # n2)) \<inter> processed_flists st = {}"
          using n2(3) p2 False by auto
        moreover have "set (opened (Open p # n2)) \<subseteq> processed_flists st'"
          using n2(4) p2 sub by auto
        moreover have "processed_flists st \<subseteq> processed_flists st'" using p2 sub by auto
        ultimately have "grows st st'" unfolding grows_def by blast
        then show ?thesis using p2 sub by (auto simp: p_def)
      qed
    qed
  qed
qed

lemma process_lines_returns:
  assumes "\<And>p s. B \<subseteq> processed_flists s \<Longrightarrow> recurse p s \<noteq> OutOfFuel"
    and "\<And>p s r s'. recurse p s = Returned (r, s') \<Longrightarrow> processed_flists s \<subseteq> processed_flists s'"
  shows "B \<subseteq> processed_flists st \<Longrightarrow> process_lines env repo recurse ls acc st \<noteq> OutOfFuel"
proof (induction ls arbitrary: acc st)
  case Nil
  then show ?case by (cases acc) simp
next
  case (Cons raw rest)
  obtain files include_dirs where acc: "acc = (files, include_dirs)" by (cases acc)
  show ?case
  proof (cases "recurse (normpath env (if isabs env (strip (drop 2 (strip raw))) then strip (drop 2 (strip raw))
                   else join_path env repo (strip (drop 2 (strip raw))))) st")
    case OutOfFuel
    then show ?thesis using assms(1) Cons.prems by blast
  next
    case (Raised e)
    then show ?thesis
      using Cons.prems Cons.IH unfolding acc
      by (simp add: Let_def split: if_splits)
  next
    case (Returned x)
    obtain sf si s1 where x: "x = ((sf, si), s1)" by (metis prod.collapse)
    have "B \<subseteq> processed_flists s1" using assms(2) Returned x Cons.prems by blast
    then show ?thesis
      using Cons.prems Cons.IH Returned unfolding acc x
      by (simp add: Let_def split: if_splits)
  qed
qed

lemma finite_existing: "finite (existing env)"
  by (simp add: existing_def)

lemma map_of_existing: "map_of (fs env) p = Some n \<Longrightarrow> p \<in> existing env"
  unfolding existing_def by (metis map_of_SomeD fst_conv image_eqI)

lemma process_flist_file_returns:
  "card (existing env - processed_flists st) < depth
   \<Longrightarrow> process_flist_file depth env repo cfg path st \<noteq> OutOfFuel"
proof (induction depth arbitrary: path st)
  case 0
  then show ?case by simp
next
  case (Suc depth)
  define p where "p = normpath env (abspath env path)"
  show ?case
  proof (cases "p \<in> processed_flists st")
    case True
    then show ?thesis by (simp add: p_def[symmetric] Let_def)
  next
    case False
    define st1 where "st1 = st\<lparr>processed_flists := insert p (processed_flists st)\<rparr>"
    show ?thesis
    proof (cases "map_of (fs env) p")
      case None
      then show ?thesis using False by (simp add: p_def[symmetric] Let_def)
    next
      case (Some n)
      show ?thesis
      proof (cases n)
        case Directory
        then show ?thesis using False Some by (simp add: p_def[symmetric] Let_def)
      next
        case (RegularFile body)
        define st2 where "st2 = st1\<lparr>io_log := io_log st1 @ [Open p]\<rparr>"
        have pe: "p \<in> existing env - processed_flists st"
          using map_of_existing[OF Some] False by simp
        have "card (existing env - insert p (processed_flists st))
                < card (existing env - processed_flists st)"
        proof (rule psubset_card_mono)
          show "finite (existing env - processed_flists st)" using finite_existing by simp
          show "existing env - insert p (processed_flists st) \<subset> existing env - processed_flists st"
            using pe by blast
        qed
        then have c: "card (existing env - insert p (processed_flists st)) < depth"
          using Suc.prems by simp
        have r: "process_flist_file depth env repo cfg q s \<noteq> OutOfFuel"
          if "insert p (processed_flists st) \<subseteq> processed_flists s" for q s
        proof (rule Suc.IH)
          have "existing env - processed_flists s \<subseteq> existing env - insert p (processed_flists st)"
            using that by blast
          then have "card (existing env - processed_flists s)
                       \<le> card (existing env - insert p (processed_flists st))"
            using finite_existing by (intro card_mono) simp_all
          then show "card (existing env - processed_flists s) < depth" using c by simp
        qed
        have m: "processed_flists s \<subseteq> processed_flists s'"
          if "process_flist_file depth env repo cfg q s = Returned (x, s')" for q s x s'
          using process_flist_file_grows[OF that] unfolding grows_def by blast
        have "process_lines env repo (process_flist_file depth env repo cfg) ls ([], []) st2 \<noteq> OutOfFuel"
          for ls
          by (rule process_lines_returns[where B = "insert p (processed_flists st)"])
             (use r m in \<open>auto simp: st2_def st1_def\<close>)
        then show ?thesis
          using False Some RegularFile
          by (simp add: p_def[symmetric] Let_def st1_def st2_def)
      qed
    qed
  qed
qed


lemma process_lines_fuel:
  assumes "\<And>p s. r1 p s \<noteq> OutOfFuel \<Longrightarrow> r2 p s = r1 p s"
  shows "process_lines env repo r1 ls acc st \<noteq> OutOfFuel
         \<Longrightarrow> process_lines env repo r2 ls acc st = process_lines env repo r1 ls acc st"
proof (induction ls arbitrary: acc st)
  case Nil
  then show ?case by (cases acc) simp
next
  case (Cons raw rest)
  obtain files include_dirs where acc: "acc = (files, include_dirs)" by (cases acc)
  define line where "line = strip raw"
  define q where "q = normpath env (if isabs env (strip (drop 2 line)) then strip (drop 2 line)
                   else join_path env repo (strip (drop 2 line)))"
  show ?case
  proof (cases "line \<noteq> [] \<and> \<not> prefix ''//'' line \<and> \<not> prefix ''+incdir'' line \<and> prefix ''-F'' line")
    case False
    have "\<exists>acc'. \<forall>r. process_lines env repo r (raw # rest) (files, include_dirs) st
                      = process_lines env repo r rest acc' st"
    proof (cases "line = [] \<or> prefix ''//'' line")
      case True
      then show ?thesis by (simp add: Let_def line_def[symmetric]) blast
    next
      case nskip: False
      show ?thesis
      proof (cases "prefix ''+incdir'' line")
        case True
        then show ?thesis using nskip by (simp add: Let_def line_def[symmetric]) blast
      next
        case ninc: False
        then have nref: "\<not> prefix ''-F'' line" using False nskip by blast
        show ?thesis
        proof (cases "match_rtl_file line")
          case True
          then show ?thesis using nskip ninc nref by (simp add: Let_def line_def[symmetric]) blast
        next
          case False
          then show ?thesis using nskip ninc nref by (simp add: Let_def line_def[symmetric]) blast
        qed
      qed
    qed
    then obtain acc' where u: "process_lines env repo r (raw # rest) (files, include_dirs) st
                      = process_lines env repo r rest acc' st" for r
      by blast
    show ?thesis
      using Cons.prems Cons.IH[of acc' st] unfolding acc u by simp
  next
    case True
    have u: "process_lines env repo r (raw # rest) (files, include_dirs) st =
            (case r q st of
              OutOfFuel \<Rightarrow> OutOfFuel
            | Raised e \<Rightarrow> Raised e
            | Returned ((sub_files, sub_incdirs), st') \<Rightarrow>
                process_lines env repo r rest
                  (files @ sub_files, include_dirs @ sub_incdirs) st')" for r
      using True by (simp add: Let_def line_def[symmetric] q_def[symmetric])
    show ?thesis
    proof (cases "r1 q st")
      case OutOfFuel
      then show ?thesis using Cons.prems unfolding acc u by simp
    next
      case (Raised e)
      then have "r2 q st = Raised e" using assms[of q st] by simp
      then show ?thesis using Raised unfolding acc u by simp
    next
      case (Returned x)
      obtain sf si s1 where x: "x = ((sf, si), s1)" by (metis prod.collapse)
      have "r2 q st = Returned ((sf, si), s1)" using assms[of q st] Returned x by simp
      then show ?thesis
        using Cons.prems Cons.IH Returned unfolding acc u x by simp
    qed
  qed
qed

lemma process_flist_file_fuel_Suc:
  "process_flist_file depth env repo cfg path st \<noteq> OutOfFuel
   \<Longrightarrow> process_flist_file (Suc depth) env repo cfg path st
         = process_flist_file depth env repo cfg path st"
proof (induction depth arbitrary: path st)
  case 0
  then show ?case by simp
next
  case (Suc depth)
  have r: "process_flist_file (Suc depth) env repo cfg p s = process_flist_file depth env repo cfg p s"
    if "process_flist_file depth env repo cfg p s \<noteq> OutOfFuel" for p s
    using Suc.IH[OF that] .
  have pl: "process_lines env repo (process_flist_file (Suc depth) env repo cfg) ls acc s
          = process_lines env repo (process_flist_file depth env repo cfg) ls acc s"
    if "process_lines env repo (process_flist_file depth env repo cfg) ls acc s \<noteq> OutOfFuel"
    for ls acc s
    using process_lines_fuel[of "process_flist_file depth env repo cfg"
      "process_flist_file (Suc depth) env repo cfg", OF r that] .
  show ?case
    using Suc.prems
    unfolding process_flist_file.simps(2)[of "Suc depth" env repo cfg path st]
      process_flist_file.simps(2)[of depth env repo cfg path st]
    by (auto simp: Let_def pl split: option.splits node.splits)
qed

lemma process_flist_file_fuel_mono:
  assumes "d \<le> d'" and "process_flist_file d env repo cfg path st \<noteq> OutOfFuel"
  shows "process_flist_file d' env repo cfg path st = process_flist_file d env repo cfg path st"
  using assms
proof (induction d' rule: dec_induct)
  case base
  then show ?case by simp
next
  case (step n)
  then show ?case using process_flist_file_fuel_Suc[of n env repo cfg path st] by simp
qed

text \<open>
  C10: process\_flist\_file returns (or raises) on every input, whatever the -F
  references are: a nesting depth of one more than the number of files is never
  exceeded, and more depth does not change the result. A path that is already in
  processed\_flists returns at once with empty results and an unchanged state. After a
  call the normalized path is in processed\_flists, and the files opened during the
  call are distinct and were not in processed\_flists before: no file list is
  processed twice.
\<close>

theorem process_flist_file_terminates:
  "process_flist_file (Suc (length (fs env))) env cva6_repo_dir target_cfg flist_path st \<noteq> OutOfFuel
   \<and> (Suc (length (fs env)) \<le> depth \<longrightarrow>
        process_flist_file depth env cva6_repo_dir target_cfg flist_path st
          = process_flist_file (Suc (length (fs env))) env cva6_repo_dir target_cfg flist_path st)
   \<and> (normpath env (abspath env flist_path) \<in> processed_flists st \<longrightarrow>
        process_flist_file (Suc depth) env cva6_repo_dir target_cfg flist_path st
          = Returned (([], []), st))
   \<and> (process_flist_file depth env cva6_repo_dir target_cfg flist_path st = Returned (r, st') \<longrightarrow>
        insert (normpath env (abspath env flist_path)) (processed_flists st) \<subseteq> processed_flists st'
        \<and> (\<exists>new. io_log st' = io_log st @ new \<and> distinct (opened new)
               \<and> set (opened new) \<inter> processed_flists st = {}
               \<and> set (opened new) \<subseteq> processed_flists st'))"
proof (intro conjI impI)
  have "card (existing env - processed_flists st) \<le> card (existing env)"
    using finite_existing by (intro card_mono) simp_all
  also have "\<dots> \<le> length (fs env)"
    unfolding existing_def by (metis card_image_le card_length le_trans List.finite_set)
  finally have c: "card (existing env - processed_flists st) < Suc (length (fs env))" by simp
  show t: "process_flist_file (Suc (length (fs env))) env cva6_repo_dir target_cfg flist_path st
          \<noteq> OutOfFuel"
    by (rule process_flist_file_returns[OF c])
  show "process_flist_file depth env cva6_repo_dir target_cfg flist_path st
          = process_flist_file (Suc (length (fs env))) env cva6_repo_dir target_cfg flist_path st"
    if "Suc (length (fs env)) \<le> depth"
    by (rule process_flist_file_fuel_mono[OF that t])
  show "process_flist_file (Suc depth) env cva6_repo_dir target_cfg flist_path st
          = Returned (([], []), st)"
    if "normpath env (abspath env flist_path) \<in> processed_flists st"
    using that by (simp add: Let_def)
  assume "process_flist_file depth env cva6_repo_dir target_cfg flist_path st = Returned (r, st')"
  note g = process_flist_file_grows[OF this]
  show "insert (normpath env (abspath env flist_path)) (processed_flists st) \<subseteq> processed_flists st'"
    using g unfolding grows_def by blast
  show "\<exists>new. io_log st' = io_log st @ new \<and> distinct (opened new)
               \<and> set (opened new) \<inter> processed_flists st = {}
               \<and> set (opened new) \<subseteq> processed_flists st'"
    using g unfolding grows_def by blast
qed

lemma cyc_run:
  "process_flist_file 3 (posix cyc) ''/r'' ''cv32'' ''/r/a.f'' \<lparr>processed_flists = {}, io_log = []\<rparr>
   = Returned
  (([''../y.v'', ''../core/x.sv''], [''/r/inc'']),
   \<lparr>processed_flists = {''/r/missing.f'', ''/r/b.f'', ''/r/a.f''},
      io_log =
        [Open ''/r/a.f'', Open ''/r/b.f'',
         Warn ''Warning: Flist not found at /r/missing.f'']\<rparr>)"
  by code_simp

theorem process_flist_file_terminates_witness:
  "process_flist_file 3 (posix cyc) ''/r'' ''cv32'' ''/r/a.f'' \<lparr>processed_flists = {}, io_log = []\<rparr>
     = Returned
        (([''../y.v'', ''../core/x.sv''], [''/r/inc'']),
         \<lparr>processed_flists = {''/r/missing.f'', ''/r/b.f'', ''/r/a.f''},
            io_log = [Open ''/r/a.f'', Open ''/r/b.f'',
                      Warn ''Warning: Flist not found at /r/missing.f'']\<rparr>)
   \<and> process_flist_file 7 (posix cyc) ''/r'' ''cv32'' ''/r/a.f'' \<lparr>processed_flists = {}, io_log = []\<rparr>
     = process_flist_file 3 (posix cyc) ''/r'' ''cv32'' ''/r/a.f'' \<lparr>processed_flists = {}, io_log = []\<rparr>
   \<and> process_flist_file 1 (posix cyc) ''/r'' ''cv32'' ''/r/a.f''
        \<lparr>processed_flists = {''/r/a.f''}, io_log = []\<rparr>
     = Returned (([], []), \<lparr>processed_flists = {''/r/a.f''}, io_log = []\<rparr>)
   \<and> {''/r/a.f''} \<subseteq> {''/r/missing.f'', ''/r/b.f'', ''/r/a.f''}
   \<and> (\<exists>new. [Open ''/r/a.f'', Open ''/r/b.f'', Warn ''Warning: Flist not found at /r/missing.f'']
               = [] @ new \<and> distinct (opened new))"
proof -
  note t = process_flist_file_terminates[where env = "posix cyc" and cva6_repo_dir = "''/r''"
      and target_cfg = "''cv32''" and flist_path = "''/r/a.f''"]
  have l: "Suc (length (fs (posix cyc))) = 3"
    by (simp add: posix_def cyc_def)
  have 1: "process_flist_file 7 (posix cyc) ''/r'' ''cv32'' ''/r/a.f'' \<lparr>processed_flists = {}, io_log = []\<rparr>
     = process_flist_file 3 (posix cyc) ''/r'' ''cv32'' ''/r/a.f'' \<lparr>processed_flists = {}, io_log = []\<rparr>"
    using t[where depth = 7 and st = "\<lparr>processed_flists = {}, io_log = []\<rparr>",
        THEN conjunct2, THEN conjunct1]
    unfolding l by simp
  have 2: "process_flist_file 1 (posix cyc) ''/r'' ''cv32'' ''/r/a.f''
        \<lparr>processed_flists = {''/r/a.f''}, io_log = []\<rparr>
     = Returned (([], []), \<lparr>processed_flists = {''/r/a.f''}, io_log = []\<rparr>)"
    using t[where depth = 0 and st = "\<lparr>processed_flists = {''/r/a.f''}, io_log = []\<rparr>",
        THEN conjunct2, THEN conjunct2, THEN conjunct1]
    by (simp add: posix_def)
  have 3: "{''/r/a.f''} \<subseteq> {''/r/missing.f'', ''/r/b.f'', ''/r/a.f''}
    \<and> (\<exists>new. [Open ''/r/a.f'', Open ''/r/b.f'', Warn ''Warning: Flist not found at /r/missing.f'']
               = [] @ new \<and> distinct (opened new))"
    using t[where depth = 3 and st = "\<lparr>processed_flists = {}, io_log = []\<rparr>",
        THEN conjunct2, THEN conjunct2, THEN conjunct2, THEN mp, OF cyc_run]
    by (simp add: posix_def)
  show ?thesis using cyc_run 1 2 3 by simp
qed

end
